theory Spec2Isabelle
  imports Main "HOL-Library.Word"
begin

section \<open>TimerThread: a timer engine with one worker thread\<close>

text \<open>
  The engine of \<^verbatim>\<open>inc/timerthread.hxx\<close> and \<^verbatim>\<open>src/timerthread.cxx\<close>. Every member
  function takes the mutex \<^verbatim>\<open>sync\<close> on entry, so each function (or each stretch of
  a function between two points where it gives the mutex up) is one atomic transition of
  the shared state. The model has one HOL function per such stretch; it takes the
  engine and returns the new engine together with what the stretch returns or signals.

  \<^item> Timer ids are \<^verbatim>\<open>std::uint64_t\<close>: 64-bit words, whose \<open>+\<close> wraps and whose
    order is the unsigned one.
  \<^item> The arguments \<^verbatim>\<open>msDelay\<close> and \<^verbatim>\<open>msPeriod\<close> are \<^verbatim>\<open>std::int64_t\<close>: 64-bit words
    read with \<open>sint\<close>.
  \<^item> Time points and durations of \<^verbatim>\<open>std::chrono\<close> are counts of ticks held in a
    signed 64-bit integer. A \<^verbatim>\<open>Timestamp\<close> counts the ticks of
    \<^verbatim>\<open>high_resolution_clock\<close>, which are nanoseconds (libstdc++, libc++); a
    \<^verbatim>\<open>Duration\<close> counts microseconds. Both are integers here, and the arithmetic
    that the code does on them wraps at 64 bits, written out in \<open>time_point_plus\<close>.
  \<^item> \<^verbatim>\<open>Clock::now()\<close> is an input of the function that reads it.
  \<^item> A handler is a value of an arbitrary type \<open>'h\<close>; the engine only stores it and
    hands it to the worker.
\<close>

type_synonym timer_id_t = "64 word"
type_synonym time_us_t = "64 word"
type_synonym Timestamp = int
type_synonym Duration = int

definition no_timer :: timer_id_t where
  "no_timer = 0"

text \<open>
  \<^verbatim>\<open>time_point + Duration\<close>: the duration is converted to the ticks of the clock
  (times 1000) and added, both in signed 64-bit arithmetic. Signed overflow is
  undefined in C++; compiled code wraps, and so does the model. \<open>fits_int64\<close> says that
  an integer is a value of \<^verbatim>\<open>std::int64_t\<close>.
\<close>

definition fits_int64 :: "int \<Rightarrow> bool" where
  "fits_int64 k \<longleftrightarrow> - (2 ^ 63) \<le> k \<and> k < 2 ^ 63"

definition wrap_int64 :: "int \<Rightarrow> int" where
  "wrap_int64 k = sint (word_of_int k :: 64 word)"

definition time_point_plus :: "Timestamp \<Rightarrow> Duration \<Rightarrow> Timestamp" where
  "time_point_plus t d = wrap_int64 (t + 1000 * d)"

subsection \<open>Timer\<close>

text \<open>
  The struct \<^verbatim>\<open>Timer\<close>. The fields \<^verbatim>\<open>id\<close> and \<^verbatim>\<open>next\<close> carry a suffix, since
  \<open>id\<close> is the identity function of HOL and \<open>next\<close> a keyword. \<^verbatim>\<open>waitCond\<close> is a
  \<^verbatim>\<open>unique_ptr\<close> to a condition variable: \<open>True\<close> when one has been assigned, \<open>False\<close>
  when the pointer is null.
\<close>

record 'h Timer =
  id_t :: timer_id_t
  next_t :: Timestamp
  period :: Duration
  handler :: 'h
  waitCond :: bool
  running :: bool

text \<open>The constructor \<^verbatim>\<open>Timer(id, next, period, handler)\<close>.\<close>

definition Timer_ctor :: "timer_id_t \<Rightarrow> Timestamp \<Rightarrow> Duration \<Rightarrow> 'h \<Rightarrow> 'h Timer" where
  "Timer_ctor i n p h =
     \<lparr>id_t = i, next_t = n, period = p, handler = h, waitCond = False, running = False\<rparr>"

text \<open>The functor that orders the queue: \<^verbatim>\<open>a.next < b.next\<close>.\<close>

definition NextActiveComparator :: "'h Timer \<Rightarrow> 'h Timer \<Rightarrow> bool" where
  "NextActiveComparator a b = (next_t a < next_t b)"

subsection \<open>The map of timers and the queue of references\<close>

text \<open>
  \<^verbatim>\<open>TimerMap\<close> is an \<^verbatim>\<open>unordered_map\<close> from ids to timers. \<^verbatim>\<open>clear()\<close> reads
  \<^verbatim>\<open>active.begin()\<close>, so the order of iteration matters and the map is an association
  list in that order. The standard leaves the order open; here a new entry goes to the
  front, and erasing keeps the order of the rest (which the standard does promise).
  No result below depends on where \<open>map_emplace\<close> puts the entry.

  \<^verbatim>\<open>Queue\<close> is a \<^verbatim>\<open>multiset\<close> of references to the timers stored in the map, ordered
  by \<^verbatim>\<open>NextActiveComparator\<close>. A reference to a timer is its key in the map, and the
  queue is the list of these keys in the order of iteration.
\<close>

type_synonym 'h TimerMap = "(timer_id_t \<times> 'h Timer) list"
type_synonym Queue = "timer_id_t list"

text \<open>\<^verbatim>\<open>active.find(id)\<close>: an iterator is \<open>Some\<close> key, \<^verbatim>\<open>active.end()\<close> is \<open>None\<close>.\<close>

definition map_find :: "'h TimerMap \<Rightarrow> timer_id_t \<Rightarrow> timer_id_t option" where
  "map_find m k = (case map_of m k of None \<Rightarrow> None | Some t \<Rightarrow> Some k)"

definition map_begin :: "'h TimerMap \<Rightarrow> timer_id_t option" where
  "map_begin m = (case m of [] \<Rightarrow> None | e # es \<Rightarrow> Some (fst e))"

text \<open>\<^verbatim>\<open>active.emplace(id, timer)\<close> inserts nothing when the key is already there.\<close>

definition map_emplace :: "timer_id_t \<Rightarrow> 'h Timer \<Rightarrow> 'h TimerMap \<Rightarrow> 'h TimerMap" where
  "map_emplace k t m = (case map_of m k of None \<Rightarrow> (k, t) # m | Some u \<Rightarrow> m)"

definition map_erase :: "timer_id_t \<Rightarrow> 'h TimerMap \<Rightarrow> 'h TimerMap" where
  "map_erase k m = filter (\<lambda>e. fst e \<noteq> k) m"

text \<open>An assignment to fields of the timer behind a reference.\<close>

definition map_assign :: "timer_id_t \<Rightarrow> ('h Timer \<Rightarrow> 'h Timer) \<Rightarrow> 'h TimerMap \<Rightarrow> 'h TimerMap" where
  "map_assign k f m = map (\<lambda>e. if fst e = k then (fst e, f (snd e)) else e) m"

text \<open>
  Reading through a reference. The queue holds references into the map, and a
  reference to an erased timer dangles: reading through it is undefined behaviour.
  Every function below that reads through the references of the queue tests
  \<open>dangling\<close> first and ends in the fault \<open>DanglingReference\<close>, so \<open>timer_at\<close> is only
  evaluated at keys that the map holds.
\<close>

definition timer_at :: "'h TimerMap \<Rightarrow> timer_id_t \<Rightarrow> 'h Timer" where
  "timer_at m k = the (map_of m k)"

definition dangling :: "'h TimerMap \<Rightarrow> Queue \<Rightarrow> bool" where
  "dangling m q = list_ex (\<lambda>j. map_of m j = None) q"

text \<open>
  \<^verbatim>\<open>queue.emplace(timer)\<close>: a multiset inserts at the upper bound of the elements
  equivalent to the new one, that is before the first element that the new one is
  less than. \<open>queue_emplace_pos\<close> is the position of the returned iterator.
\<close>

fun queue_emplace_pos :: "'h TimerMap \<Rightarrow> timer_id_t \<Rightarrow> Queue \<Rightarrow> nat" where
  "queue_emplace_pos m k [] = 0"
| "queue_emplace_pos m k (j # q) =
     (if NextActiveComparator (timer_at m k) (timer_at m j) then 0
      else Suc (queue_emplace_pos m k q))"

fun queue_emplace :: "'h TimerMap \<Rightarrow> timer_id_t \<Rightarrow> Queue \<Rightarrow> Queue" where
  "queue_emplace m k [] = [k]"
| "queue_emplace m k (j # q) =
     (if NextActiveComparator (timer_at m k) (timer_at m j) then k # j # q
      else j # queue_emplace m k q)"

text \<open>
  \<^verbatim>\<open>queue.erase(timer)\<close> with a \<^verbatim>\<open>Timer&\<close> argument is the overload
  \<^verbatim>\<open>erase(const key_type&)\<close>: it erases every element equivalent to the key, that is
  every element that is neither less nor greater under the comparator.
\<close>

definition queue_erase_key :: "'h TimerMap \<Rightarrow> timer_id_t \<Rightarrow> Queue \<Rightarrow> Queue" where
  "queue_erase_key m k q =
     filter (\<lambda>j. NextActiveComparator (timer_at m k) (timer_at m j)
               \<or> NextActiveComparator (timer_at m j) (timer_at m k)) q"

subsection \<open>The engine\<close>

text \<open>
  The data members of \<^verbatim>\<open>TimerThread\<close>. \<^verbatim>\<open>done\<close> carries a suffix (a keyword);
  \<open>worker_joinable\<close> is \<^verbatim>\<open>worker.joinable()\<close>.
\<close>

record 'h TimerThread =
  nextId :: timer_id_t
  active :: "'h TimerMap"
  queue :: Queue
  done_t :: bool
  worker_joinable :: bool

text \<open>
  How a call can go wrong: \<^verbatim>\<open>assert(lock.owns_lock())\<close> in \<^verbatim>\<open>destroy_impl\<close> fails
  (the assertion is taken as compiled in); a reference or an iterator to an erased
  timer is read; \<^verbatim>\<open>timer.waitCond->notify_all()\<close> is called on a null pointer. The
  last two are undefined behaviour in C++.
\<close>

datatype fault = AssertionFailed | DanglingReference | NullWaitCond

definition TimerThread_ctor :: "'h TimerThread" where
  "TimerThread_ctor =
     \<lparr>nextId = no_timer + 1, active = [], queue = [], done_t = False,
      worker_joinable = False\<rparr>"

text \<open>
  The destructor up to \<^verbatim>\<open>worker.join()\<close>: whether it called
  \<^verbatim>\<open>wakeUp.notify_all()\<close>, and the engine.
\<close>

definition TimerThread_dtor :: "'h TimerThread \<Rightarrow> bool \<times> 'h TimerThread" where
  "TimerThread_dtor st =
     (if worker_joinable st then (True, st\<lparr>done_t := True\<rparr>) else (False, st))"

text \<open>
  \<^verbatim>\<open>addTimer\<close> returns the id, whether it called \<^verbatim>\<open>wakeUp.notify_all()\<close>, and the
  engine.
\<close>

definition addTimer ::
  "Timestamp \<Rightarrow> time_us_t \<Rightarrow> time_us_t \<Rightarrow> 'h \<Rightarrow> 'h TimerThread
     \<Rightarrow> fault + (timer_id_t \<times> bool \<times> 'h TimerThread)" where
  "addTimer now msDelay msPeriod h st =
     (if dangling (active st) (queue st) then Inl DanglingReference
      else
        let i = nextId st;
            m = map_emplace i
                  (Timer_ctor i (time_point_plus now (sint msDelay)) (sint msPeriod) h)
                  (active st);
            needNotify = (queue_emplace_pos m i (queue st) = 0)
        in Inr (i, needNotify,
                st\<lparr>nextId := nextId st + 1, active := m,
                   queue := queue_emplace m i (queue st), worker_joinable := True\<rparr>))"

definition setInterval ::
  "Timestamp \<Rightarrow> 'h \<Rightarrow> time_us_t \<Rightarrow> 'h TimerThread
     \<Rightarrow> fault + (timer_id_t \<times> bool \<times> 'h TimerThread)" where
  "setInterval now h p st = addTimer now p p h st"

definition setTimeout ::
  "Timestamp \<Rightarrow> 'h \<Rightarrow> time_us_t \<Rightarrow> 'h TimerThread
     \<Rightarrow> fault + (timer_id_t \<times> bool \<times> 'h TimerThread)" where
  "setTimeout now h timeout st = addTimer now timeout 0 h st"

text \<open>
  What a call of \<^verbatim>\<open>destroy_impl\<close> did: the value it returns; whether the caller
  waited on the timer's \<^verbatim>\<open>waitCond\<close> before returning (the engine returned is then the
  one at the moment the wait begins); whether it called \<^verbatim>\<open>wakeUp.notify_all()\<close>;
  whether the caller still owns the lock.
\<close>

record destroy_result =
  returned :: bool
  waited :: bool
  notified :: bool
  owns_lock :: bool

definition destroy_impl ::
  "bool \<Rightarrow> timer_id_t option \<Rightarrow> bool \<Rightarrow> 'h TimerThread
     \<Rightarrow> fault + (destroy_result \<times> 'h TimerThread)" where
  "destroy_impl owns i notify st =
     (if \<not> owns then Inl AssertionFailed
      else case i of
        None \<Rightarrow>
          Inr (\<lparr>returned = False, waited = False, notified = False, owns_lock = True\<rparr>, st)
      | Some k \<Rightarrow>
          (case map_of (active st) k of
             None \<Rightarrow> Inl DanglingReference
           | Some timer \<Rightarrow>
               if running timer then
                 Inr (\<lparr>returned = True, waited = True, notified = False, owns_lock = True\<rparr>,
                      st\<lparr>active :=
                           map_assign k (\<lambda>t. t\<lparr>running := False, waitCond := True\<rparr>)
                             (active st)\<rparr>)
               else if dangling (active st) (queue st) then Inl DanglingReference
               else
                 Inr (\<lparr>returned = True, waited = False, notified = notify,
                       owns_lock = (\<not> notify)\<rparr>,
                      st\<lparr>queue := queue_erase_key (active st) k (queue st),
                         active := map_erase k (active st)\<rparr>)))"

definition clearTimer ::
  "timer_id_t \<Rightarrow> 'h TimerThread \<Rightarrow> fault + (destroy_result \<times> 'h TimerThread)" where
  "clearTimer i st = destroy_impl True (map_find (active st) i) True st"

text \<open>\<^verbatim>\<open>size()\<close> and \<^verbatim>\<open>empty()\<close>, named after the class (HOL has its own \<open>size\<close>).\<close>

definition size_TimerThread :: "'h TimerThread \<Rightarrow> nat" where
  "size_TimerThread st = length (active st)"

definition empty_TimerThread :: "'h TimerThread \<Rightarrow> bool" where
  "empty_TimerThread st = (active st = [])"

text \<open>
  \<^verbatim>\<open>clear()\<close> takes the lock and loops while the map is not empty. The loop keeps no
  local state, so when \<^verbatim>\<open>destroy_impl\<close> waits on a running timer the model stops
  there: the result says that the caller is suspended, and the call goes on, from the
  head of the loop and owning the lock again, on the engine it finds when it is woken.
  The results are: whether \<^verbatim>\<open>clear()\<close> returned (\<open>False\<close>: suspended), for each
  removal in turn whether \<^verbatim>\<open>wakeUp.notify_all()\<close> was called, and the engine.
\<close>

function clear_loop ::
  "bool \<Rightarrow> bool list \<Rightarrow> 'h TimerThread \<Rightarrow> fault + (bool \<times> bool list \<times> 'h TimerThread)" where
  "clear_loop owns log st =
     (if active st = [] then Inr (True, log, st)
      else case destroy_impl owns (map_begin (active st)) (length (queue st) = 1) st of
             Inl f \<Rightarrow> Inl f
           | Inr (r, st') \<Rightarrow>
               if waited r then Inr (False, log, st')
               else clear_loop (owns_lock r) (log @ [notified r]) st')"
  by pat_completeness auto
termination
proof (relation "measure (\<lambda>(owns, log, st). length (active st))", goal_cases)
  case 1
  show ?case by simp
next
  case (2 owns log st x2 r st')
  obtain e es where m: "active st = e # es"
    using 2(1) by (cases "active st") auto
  have "active st' = map_erase (fst e) (active st)"
    using 2 m
    by (auto simp: destroy_impl_def map_begin_def split: if_splits option.splits)
  then have "length (active st') < length (active st)"
    by (simp add: m map_erase_def le_imp_less_Suc)
  then show ?case by simp
qed

declare clear_loop.simps [simp del]

definition clear :: "'h TimerThread \<Rightarrow> fault + (bool \<times> bool list \<times> 'h TimerThread)" where
  "clear st = clear_loop True [] st"

subsection \<open>The worker\<close>

text \<open>
  \<^verbatim>\<open>timerThreadWorker\<close> holds the lock except while it waits and while a handler
  runs. One turn of its loop is two transitions: \<open>timerThreadWorker_fire\<close> from the
  test of \<^verbatim>\<open>done\<close> to the point where the lock is given up (for a wait, or for the
  call of the handler), and \<open>timerThreadWorker_reconcile\<close> from
  \<^verbatim>\<open>lock.lock()\<close> after the handler to the end of the turn. Between the two, calls of
  other threads (and of the handler itself) go through.
\<close>

datatype 'h worker_action =
    Exit
  | WaitWork
  | WaitUntil Timestamp
  | Invoke timer_id_t 'h

definition timerThreadWorker_fire ::
  "Timestamp \<Rightarrow> 'h TimerThread \<Rightarrow> fault + ('h worker_action \<times> 'h TimerThread)" where
  "timerThreadWorker_fire now st =
     (if done_t st then Inr (Exit, st)
      else case queue st of
        [] \<Rightarrow> Inr (WaitWork, st)
      | k # q \<Rightarrow>
          (case map_of (active st) k of
             None \<Rightarrow> Inl DanglingReference
           | Some timer \<Rightarrow>
               if now \<ge> next_t timer then
                 Inr (Invoke k (handler timer),
                      st\<lparr>queue := q,
                         active := map_assign k (\<lambda>t. t\<lparr>running := True\<rparr>) (active st)\<rparr>)
               else Inr (WaitUntil (next_t timer), st)))"

text \<open>
  The argument \<open>k\<close> is the reference \<^verbatim>\<open>timer\<close> that the worker kept over the call of
  the handler. The boolean returned says whether \<^verbatim>\<open>timer.waitCond->notify_all()\<close> was
  called.
\<close>

definition timerThreadWorker_reconcile ::
  "timer_id_t \<Rightarrow> 'h TimerThread \<Rightarrow> fault + (bool \<times> 'h TimerThread)" where
  "timerThreadWorker_reconcile k st =
     (case map_of (active st) k of
        None \<Rightarrow> Inl DanglingReference
      | Some timer \<Rightarrow>
          if running timer then
            (if period timer > 0 then
               (if dangling (active st) (queue st) then Inl DanglingReference
                else
                  let m = map_assign k
                            (\<lambda>t. t\<lparr>running := False,
                                   next_t := time_point_plus (next_t t) (period t)\<rparr>)
                            (active st)
                  in Inr (False, st\<lparr>active := m, queue := queue_emplace m k (queue st)\<rparr>))
             else Inr (False, st\<lparr>active := map_erase (id_t timer) (active st)\<rparr>))
          else if \<not> waitCond timer then Inl NullWaitCond
          else Inr (True, st\<lparr>active := map_erase (id_t timer) (active st)\<rparr>))"

subsection \<open>Runs of calls\<close>

text \<open>
  The transitions that threads can take on one engine, and a run of them in the order
  in which they get the lock. \<open>Fire\<close> and \<open>Reconcile\<close> are the two halves of a turn
  of the worker; the other calls are the public member functions. A fault ends the run.
\<close>

datatype 'h call =
    AddTimer Timestamp time_us_t time_us_t 'h
  | SetInterval Timestamp 'h time_us_t
  | SetTimeout Timestamp 'h time_us_t
  | ClearTimer timer_id_t
  | Clear
  | Fire Timestamp
  | Reconcile timer_id_t

fun is_schedule :: "'h call \<Rightarrow> bool" where
  "is_schedule (AddTimer now d p h) = True"
| "is_schedule (SetInterval now h p) = True"
| "is_schedule (SetTimeout now h d) = True"
| "is_schedule c = False"

text \<open>One call: the id it returns, if it is a call that returns one, and the engine.\<close>

fun call_step :: "'h call \<Rightarrow> 'h TimerThread \<Rightarrow> fault + (timer_id_t option \<times> 'h TimerThread)" where
  "call_step (AddTimer now d p h) st =
     (case addTimer now d p h st of Inl f \<Rightarrow> Inl f | Inr (i, b, st') \<Rightarrow> Inr (Some i, st'))"
| "call_step (SetInterval now h p) st =
     (case setInterval now h p st of Inl f \<Rightarrow> Inl f | Inr (i, b, st') \<Rightarrow> Inr (Some i, st'))"
| "call_step (SetTimeout now h d) st =
     (case setTimeout now h d st of Inl f \<Rightarrow> Inl f | Inr (i, b, st') \<Rightarrow> Inr (Some i, st'))"
| "call_step (ClearTimer i) st =
     (case clearTimer i st of Inl f \<Rightarrow> Inl f | Inr (r, st') \<Rightarrow> Inr (None, st'))"
| "call_step Clear st =
     (case clear st of Inl f \<Rightarrow> Inl f | Inr (fin, log, st') \<Rightarrow> Inr (None, st'))"
| "call_step (Fire now) st =
     (case timerThreadWorker_fire now st of Inl f \<Rightarrow> Inl f | Inr (a, st') \<Rightarrow> Inr (None, st'))"
| "call_step (Reconcile k) st =
     (case timerThreadWorker_reconcile k st of
        Inl f \<Rightarrow> Inl f
      | Inr (b, st') \<Rightarrow> Inr (None, st'))"

fun run_calls :: "'h call list \<Rightarrow> 'h TimerThread \<Rightarrow> fault + 'h TimerThread" where
  "run_calls [] st = Inr st"
| "run_calls (c # cs) st =
     (case call_step c st of Inl f \<Rightarrow> Inl f | Inr (r, st') \<Rightarrow> run_calls cs st')"

text \<open>The ids that the calls of a run return, in order.\<close>

fun issued_ids :: "'h call list \<Rightarrow> 'h TimerThread \<Rightarrow> timer_id_t list" where
  "issued_ids [] st = []"
| "issued_ids (c # cs) st =
     (case call_step c st of
        Inl f \<Rightarrow> []
      | Inr (None, st') \<Rightarrow> issued_ids cs st'
      | Inr (Some i, st') \<Rightarrow> i # issued_ids cs st')"

subsection \<open>Invariants\<close>

text \<open>
  What every transition keeps, as long as the counter of ids has not wrapped: no
  reference of the queue dangles, the queue holds no reference twice, it is sorted by
  \<^verbatim>\<open>next\<close>, no timer in it is marked running, every id in use is below \<open>nextId\<close>,
  and every timer is stored under its own id.
\<close>

definition engine_inv :: "'h TimerThread \<Rightarrow> bool" where
  "engine_inv st \<longleftrightarrow>
     \<not> dangling (active st) (queue st)
     \<and> distinct (queue st)
     \<and> sorted (map (\<lambda>j. next_t (timer_at (active st) j)) (queue st))
     \<and> (\<forall>j \<in> set (queue st). \<not> running (timer_at (active st) j))
     \<and> (\<forall>e \<in> set (active st). fst e < nextId st)
     \<and> (\<forall>e \<in> set (active st). id_t (snd e) = fst e)"

text \<open>
  The invariant of the specification: every reference of the queue is to a timer of
  the map; a timer of the map is in the queue exactly when its handler is not being
  executed; at most one timer has \<^verbatim>\<open>running\<close> set. The handler of a timer is being
  executed when \<^verbatim>\<open>running\<close> is set, or when a cancel has cleared \<^verbatim>\<open>running\<close> and
  assigned \<^verbatim>\<open>waitCond\<close> and the worker has not erased the timer yet.
\<close>

definition in_callback :: "'h Timer \<Rightarrow> bool" where
  "in_callback t \<longleftrightarrow> running t \<or> waitCond t"

definition index_inv :: "'h TimerThread \<Rightarrow> bool" where
  "index_inv st \<longleftrightarrow>
     list_all (\<lambda>j. map_of (active st) j \<noteq> None) (queue st)
     \<and> list_all (\<lambda>e. (fst e \<in> set (queue st)) = (\<not> in_callback (snd e))) (active st)
     \<and> length (filter (\<lambda>e. running (snd e)) (active st)) \<le> 1"

subsection \<open>The worker among the callers\<close>

text \<open>
  The worker is one thread: after \<open>Fire\<close> has taken a timer out of the queue it runs
  the handler with the mutex released and then does \<open>Reconcile\<close> for that timer; it
  takes no other timer meanwhile. The other threads call the public member functions
  at any point, also while the handler runs. \<open>threads_step\<close> is one transition of
  such a run. It keeps the timer whose handler the worker is running (\<open>None\<close>
  between two turns) and passes over an event of the worker that is not the worker's
  next one. It also records what the transition does with deadlines: \<open>Fired k t\<close>
  when the worker invokes the handler of timer \<open>k\<close>, whose \<^verbatim>\<open>next\<close> is \<open>t\<close>, and
  \<open>Armed t\<close> when a timer with \<^verbatim>\<open>next = t\<close> is put into the queue, by a schedule
  call or by the worker after the handler of a periodic timer has returned.
\<close>

datatype log_entry = Armed Timestamp | Fired timer_id_t Timestamp

fun threads_step ::
  "'h call \<Rightarrow> timer_id_t option \<Rightarrow> 'h TimerThread
     \<Rightarrow> fault + (log_entry list \<times> timer_id_t option \<times> 'h TimerThread)" where
  "threads_step (Fire now) pc st =
     (case pc of
        Some k \<Rightarrow> Inr ([], pc, st)
      | None \<Rightarrow>
          (case timerThreadWorker_fire now st of
             Inl f \<Rightarrow> Inl f
           | Inr (Invoke k h, st') \<Rightarrow>
               Inr ([Fired k (next_t (timer_at (active st) k))], Some k, st')
           | Inr (a, st') \<Rightarrow> Inr ([], None, st')))"
| "threads_step (Reconcile j) pc st =
     (if pc = Some j then
        (case timerThreadWorker_reconcile j st of
           Inl f \<Rightarrow> Inl f
         | Inr (b, st') \<Rightarrow>
             Inr (if running (timer_at (active st) j) \<and> period (timer_at (active st) j) > 0
                  then [Armed (next_t (timer_at (active st') j))] else [],
                  None, st'))
      else Inr ([], pc, st))"
| "threads_step c pc st =
     (case call_step c st of
        Inl f \<Rightarrow> Inl f
      | Inr (None, st') \<Rightarrow> Inr ([], pc, st')
      | Inr (Some i, st') \<Rightarrow> Inr ([Armed (next_t (timer_at (active st') i))], pc, st'))"

text \<open>The record of a run. A fault ends the run.\<close>

fun threads_log :: "'h call list \<Rightarrow> timer_id_t option \<Rightarrow> 'h TimerThread \<Rightarrow> log_entry list" where
  "threads_log [] pc st = []"
| "threads_log (c # cs) pc st =
     (case threads_step c pc st of
        Inl f \<Rightarrow> []
      | Inr (es, pc', st') \<Rightarrow> es @ threads_log cs pc' st')"

text \<open>The target times of the handler invocations of a record, in order.\<close>

fun fired_targets :: "log_entry list \<Rightarrow> Timestamp list" where
  "fired_targets [] = []"
| "fired_targets (Armed t # es) = fired_targets es"
| "fired_targets (Fired k t # es) = t # fired_targets es"

text \<open>
  No timer is put into the queue with a deadline earlier than the target time of the
  latest invocation before it; \<open>lst\<close> is that target time, \<open>None\<close> before the first
  invocation.
\<close>

fun armed_in_order :: "Timestamp option \<Rightarrow> log_entry list \<Rightarrow> bool" where
  "armed_in_order lst [] = True"
| "armed_in_order lst (Armed t # es) =
     ((case lst of None \<Rightarrow> True | Some u \<Rightarrow> u \<le> t) \<and> armed_in_order lst es)"
| "armed_in_order lst (Fired k u # es) = armed_in_order (Some u) es"

text \<open>The target time of the latest invocation after a record.\<close>

fun last_after :: "Timestamp option \<Rightarrow> log_entry list \<Rightarrow> Timestamp option" where
  "last_after lst [] = lst"
| "last_after lst (Armed t # es) = last_after lst es"
| "last_after lst (Fired k u # es) = last_after (Some u) es"

text \<open>
  What a run keeps under \<open>armed_in_order\<close>: besides \<open>engine_inv\<close>, no deadline in
  the queue is earlier than the target time of the latest invocation, and the timer
  whose handler runs is not in the queue.
\<close>

definition queue_from :: "Timestamp option \<Rightarrow> 'h TimerThread \<Rightarrow> bool" where
  "queue_from lst st \<longleftrightarrow>
     (case lst of
        None \<Rightarrow> True
      | Some u \<Rightarrow> \<forall>j \<in> set (queue st). u \<le> next_t (timer_at (active st) j))"

definition threads_inv :: "timer_id_t option \<Rightarrow> 'h TimerThread \<Rightarrow> Timestamp option \<Rightarrow> bool" where
  "threads_inv pc st lst \<longleftrightarrow>
     engine_inv st \<and> queue_from lst st
     \<and> (case pc of None \<Rightarrow> True | Some k \<Rightarrow> k \<notin> set (queue st) \<and> k < nextId st)"

subsection \<open>Engines used as examples\<close>

text \<open>
  In the examples the clock reads 0 when the engine is made, so that a clock reading or
  a deadline of 5000 ticks is 5 microseconds later. Two one-shot timers, due at 10 and at
  20 microseconds.
\<close>

definition engine_10_20 :: "nat TimerThread" where
  "engine_10_20 =
     \<lparr>nextId = 3,
      active = [(2, \<lparr>id_t = 2, next_t = 20000, period = 0, handler = 1,
                     waitCond = False, running = False\<rparr>),
                (1, \<lparr>id_t = 1, next_t = 10000, period = 0, handler = 0,
                     waitCond = False, running = False\<rparr>)],
      queue = [1, 2], done_t = False, worker_joinable = True\<rparr>"

text \<open>A timer with period \<open>-5\<close> whose handler is running.\<close>

definition engine_negative_period :: "nat TimerThread" where
  "engine_negative_period =
     \<lparr>nextId = 2,
      active = [(1, \<lparr>id_t = 1, next_t = 0, period = - 5, handler = 0,
                     waitCond = False, running = True\<rparr>)],
      queue = [], done_t = False, worker_joinable = True\<rparr>"

text \<open>A timer with period 3 whose handler is running, and a one-shot timer that waits.\<close>

definition engine_periodic_fired :: "nat TimerThread" where
  "engine_periodic_fired =
     \<lparr>nextId = 3,
      active = [(2, \<lparr>id_t = 2, next_t = 7000, period = 0, handler = 1,
                     waitCond = False, running = False\<rparr>),
                (1, \<lparr>id_t = 1, next_t = 0, period = 3, handler = 0,
                     waitCond = False, running = True\<rparr>)],
      queue = [2], done_t = False, worker_joinable = True\<rparr>"

text \<open>A one-shot timer whose handler is running.\<close>

definition engine_oneshot_fired :: "nat TimerThread" where
  "engine_oneshot_fired =
     \<lparr>nextId = 2,
      active = [(1, \<lparr>id_t = 1, next_t = 4000, period = 0, handler = 0,
                     waitCond = False, running = True\<rparr>)],
      queue = [], done_t = False, worker_joinable = True\<rparr>"

text \<open>A one-shot timer that was due 10 microseconds ago and has not fired yet.\<close>

definition engine_overdue :: "nat TimerThread" where
  "engine_overdue =
     \<lparr>nextId = 2,
      active = [(1, \<lparr>id_t = 1, next_t = - 10000, period = 0, handler = 0,
                     waitCond = False, running = False\<rparr>)],
      queue = [1], done_t = False, worker_joinable = True\<rparr>"

text \<open>
  Two one-shot timers with the same deadline: one added at time 0 with delay 5, one
  two microseconds later with delay 3.
\<close>

definition engine_same_deadline :: "nat TimerThread" where
  "engine_same_deadline =
     \<lparr>nextId = 3,
      active = [(2, \<lparr>id_t = 2, next_t = 5000, period = 0, handler = 1,
                     waitCond = False, running = False\<rparr>),
                (1, \<lparr>id_t = 1, next_t = 5000, period = 0, handler = 0,
                     waitCond = False, running = False\<rparr>)],
      queue = [1, 2], done_t = False, worker_joinable = True\<rparr>"

text \<open>
  Three one-shot timers, added one microsecond after the other with delays 3, 5 and
  1: the first and the third have the same deadline.
\<close>

definition engine_three :: "nat TimerThread" where
  "engine_three =
     \<lparr>nextId = 4,
      active = [(3, \<lparr>id_t = 3, next_t = 3000, period = 0, handler = 2,
                     waitCond = False, running = False\<rparr>),
                (2, \<lparr>id_t = 2, next_t = 6000, period = 0, handler = 1,
                     waitCond = False, running = False\<rparr>),
                (1, \<lparr>id_t = 1, next_t = 3000, period = 0, handler = 0,
                     waitCond = False, running = False\<rparr>)],
      queue = [1, 3, 2], done_t = False, worker_joinable = True\<rparr>"

text \<open>A timer with the largest period that \<^verbatim>\<open>std::int64_t\<close> holds, whose handler is running.\<close>

definition engine_period_max :: "nat TimerThread" where
  "engine_period_max =
     \<lparr>nextId = 2,
      active = [(1, \<lparr>id_t = 1, next_t = 0, period = 9223372036854775807, handler = 0,
                     waitCond = False, running = True\<rparr>)],
      queue = [], done_t = False, worker_joinable = True\<rparr>"

text \<open>A one-shot timer, due at 5 microseconds, whose handler is running.\<close>

definition engine_in_callback :: "nat TimerThread" where
  "engine_in_callback =
     \<lparr>nextId = 2,
      active = [(1, \<lparr>id_t = 1, next_t = 5000, period = 0, handler = 0,
                     waitCond = False, running = True\<rparr>)],
      queue = [], done_t = False, worker_joinable = True\<rparr>"

text \<open>
  An engine whose counter of ids has gone round: a timer with period 10 is added first,
  then \<open>2 ^ 64 - 1\<close> times a one-shot timer is added and cancelled. The counter is
  back at 1, the id of the first timer, which is still in the map and in the queue.
\<close>

definition wrap_calls :: "nat call list" where
  "wrap_calls =
     AddTimer 0 0 10 0
     # concat (map (\<lambda>x. [AddTimer 0 5 0 1, ClearTimer (2 + of_nat x)]) [0..<2 ^ 64 - 1])"

definition engine_wrapped :: "nat TimerThread" where
  "engine_wrapped =
     \<lparr>nextId = 1,
      active = [(1, \<lparr>id_t = 1, next_t = 0, period = 10, handler = 0,
                     waitCond = False, running = False\<rparr>)],
      queue = [1], done_t = False, worker_joinable = True\<rparr>"

section \<open>Properties\<close>

subsection \<open>Time\<close>

lemma wrap_int64_fits: "fits_int64 k \<Longrightarrow> wrap_int64 k = k"
  by (simp add: fits_int64_def wrap_int64_def sint_sbintrunc' signed_take_bit_int_eq_self)

lemma fits_int64_wrap: "fits_int64 (wrap_int64 k)"
  using sint_ge [of "word_of_int k :: 64 word"] sint_lt [of "word_of_int k :: 64 word"]
  by (simp add: fits_int64_def wrap_int64_def)

subsection \<open>The map and the queue\<close>

lemma dangling_iff: "dangling m q \<longleftrightarrow> (\<exists>j \<in> set q. map_of m j = None)"
  by (simp add: dangling_def list_ex_iff)

lemma map_of_map_assign:
  "map_of (map_assign k f m) j = (if j = k then map_option f (map_of m k) else map_of m j)"
  by (induction m) (auto simp: map_assign_def)

lemma map_of_map_erase:
  "map_of (map_erase k m) j = (if j = k then None else map_of m j)"
  by (induction m) (auto simp: map_erase_def)

lemma map_of_map_emplace:
  "map_of (map_emplace k t m) j =
     (if j = k \<and> map_of m k = None then Some t else map_of m j)"
  by (auto simp: map_emplace_def split: option.splits)

lemma keys_map_assign: "fst ` set (map_assign k f m) = fst ` set m"
  by (induction m) (auto simp: map_assign_def)

lemma keys_map_erase: "fst ` set (map_erase k m) = fst ` set m - {k}"
  by (induction m) (auto simp: map_erase_def)

lemma keys_map_emplace: "fst ` set (map_emplace k t m) = insert k (fst ` set m)"
  by (force simp: map_emplace_def split: option.splits dest: map_of_SomeD)

lemma timer_at_map_assign_other: "j \<noteq> k \<Longrightarrow> timer_at (map_assign k f m) j = timer_at m j"
  by (simp add: timer_at_def map_of_map_assign)

lemma timer_at_map_assign_same:
  "map_of m k \<noteq> None \<Longrightarrow> timer_at (map_assign k f m) k = f (timer_at m k)"
  by (auto simp: timer_at_def map_of_map_assign)

lemma timer_at_map_erase_other: "j \<noteq> k \<Longrightarrow> timer_at (map_erase k m) j = timer_at m j"
  by (simp add: timer_at_def map_of_map_erase)

lemma timer_at_map_emplace_other: "j \<noteq> k \<Longrightarrow> timer_at (map_emplace k t m) j = timer_at m j"
  by (simp add: timer_at_def map_of_map_emplace)

lemma timer_at_map_emplace_fresh:
  "map_of m k = None \<Longrightarrow> timer_at (map_emplace k t m) k = t"
  by (simp add: timer_at_def map_of_map_emplace)

lemma set_queue_emplace: "set (queue_emplace m k q) = insert k (set q)"
  by (induction q) auto

lemma distinct_queue_emplace: "distinct q \<Longrightarrow> k \<notin> set q \<Longrightarrow> distinct (queue_emplace m k q)"
  by (induction q) (auto simp: set_queue_emplace)

lemma sorted_queue_emplace:
  "sorted (map (\<lambda>j. next_t (timer_at m j)) q)
   \<Longrightarrow> sorted (map (\<lambda>j. next_t (timer_at m j)) (queue_emplace m k q))"
  by (induction q) (auto simp: set_queue_emplace NextActiveComparator_def)

lemma queue_emplace_pos_0:
  "queue_emplace_pos m k q = 0 \<longleftrightarrow>
     (q = [] \<or> next_t (timer_at m k) < next_t (timer_at m (hd q)))"
  by (cases q) (auto simp: NextActiveComparator_def)


lemma queue_erase_key_eq:
  "queue_erase_key m k q = filter (\<lambda>j. next_t (timer_at m j) \<noteq> next_t (timer_at m k)) q"
  by (auto simp: queue_erase_key_def NextActiveComparator_def intro!: filter_cong)

subsection \<open>The transitions keep \<open>engine_inv\<close>\<close>

lemma word_less_succ:
  fixes e i :: "'a::len word"
  assumes "e < i" shows "e < i + 1 \<or> i + 1 = 0"
proof (cases "i + 1 = 0")
  case True then show ?thesis by simp
next
  case False
  then have "1 + i \<noteq> 0" by (simp add: add.commute)
  then have "unat (1 + i) = Suc (unat i)" by (rule unatSuc)
  then have "unat (i + 1) = Suc (unat i)" by (simp add: add.commute)
  with assms show ?thesis by (simp add: word_less_nat_alt)
qed

lemma word_less_succ_self:
  fixes i :: "'a::len word"
  assumes "i + 1 \<noteq> 0" shows "i < i + 1"
proof -
  from assms have "1 + i \<noteq> 0" by (simp add: add.commute)
  then have "unat (1 + i) = Suc (unat i)" by (rule unatSuc)
  then have "unat (i + 1) = Suc (unat i)" by (simp add: add.commute)
  then show ?thesis by (simp add: word_less_nat_alt)
qed

lemma ids_assign:
  assumes "\<forall>e \<in> set m. id_t (snd e) = fst e" and "\<And>t. id_t (f t) = id_t t"
  shows "\<forall>e \<in> set (map_assign k f m). id_t (snd e) = fst e"
  using assms by (auto simp: map_assign_def)

lemma ids_erase:
  "\<forall>e \<in> set m. id_t (snd e) = fst e \<Longrightarrow> \<forall>e \<in> set (map_erase k m). id_t (snd e) = fst e"
  by (simp add: map_erase_def)

lemma ids_emplace:
  "\<forall>e \<in> set m. id_t (snd e) = fst e \<Longrightarrow> id_t t = k
   \<Longrightarrow> \<forall>e \<in> set (map_emplace k t m). id_t (snd e) = fst e"
  by (auto simp: map_emplace_def split: option.splits)

lemma engine_inv_ctor: "engine_inv TimerThread_ctor"
  by (simp add: engine_inv_def TimerThread_ctor_def dangling_def)

lemma inv_fresh:
  assumes "engine_inv st"
  shows "map_of (active st) (nextId st) = None" and "nextId st \<notin> set (queue st)"
proof -
  have "nextId st \<notin> fst ` set (active st)"
    using assms by (auto simp: engine_inv_def)
  then show a: "map_of (active st) (nextId st) = None"
    by (simp add: map_of_eq_None_iff)
  show "nextId st \<notin> set (queue st)"
    using assms a by (auto simp: engine_inv_def dangling_iff)
qed

lemma addTimer_inv:
  assumes inv: "engine_inv st" and nowrap: "nextId st + 1 \<noteq> 0"
    and add: "addTimer now d p h st = Inr (i, b, st')"
  shows "engine_inv st'"
proof -
  define t where "t = Timer_ctor (nextId st) (time_point_plus now (sint d)) (sint p) h"
  define m where "m = map_emplace (nextId st) t (active st)"
  have nd: "\<not> dangling (active st) (queue st)"
    using inv by (simp add: engine_inv_def)
  have st': "st' = st\<lparr>nextId := nextId st + 1, active := m,
                     queue := queue_emplace m (nextId st) (queue st), worker_joinable := True\<rparr>"
    using add nd by (auto simp: addTimer_def Let_def m_def t_def)
  note fresh = inv_fresh [OF inv]
  have same: "timer_at m j = timer_at (active st) j" if "j \<in> set (queue st)" for j
  proof -
    have "j \<noteq> nextId st" using that fresh(2) by blast
    then show ?thesis unfolding m_def by (rule timer_at_map_emplace_other)
  qed
  have new: "timer_at m (nextId st) = t"
    by (simp add: m_def timer_at_map_emplace_fresh fresh(1))
  have 1: "\<not> dangling m (queue_emplace m (nextId st) (queue st))"
    using nd by (auto simp: dangling_iff set_queue_emplace m_def map_of_map_emplace)
  have 2: "distinct (queue_emplace m (nextId st) (queue st))"
    using inv fresh(2) by (simp add: distinct_queue_emplace engine_inv_def)
  have "sorted (map (\<lambda>j. next_t (timer_at m j)) (queue st))"
    using inv same by (simp add: engine_inv_def cong: map_cong)
  then have 3: "sorted (map (\<lambda>j. next_t (timer_at m j)) (queue_emplace m (nextId st) (queue st)))"
    by (rule sorted_queue_emplace)
  have 4: "\<forall>j \<in> set (queue_emplace m (nextId st) (queue st)). \<not> running (timer_at m j)"
    using inv same new by (auto simp: set_queue_emplace engine_inv_def t_def Timer_ctor_def)
  have 5: "\<forall>e \<in> set m. fst e < nextId st + 1"
  proof
    fix e assume "e \<in> set m"
    then have "fst e \<in> fst ` set m" by (rule imageI)
    then have "fst e \<in> insert (nextId st) (fst ` set (active st))"
      by (simp add: m_def keys_map_emplace)
    then have "fst e = nextId st \<or> fst e < nextId st"
      using inv by (auto simp: engine_inv_def)
    then show "fst e < nextId st + 1"
      using nowrap word_less_succ [of "fst e" "nextId st"] word_less_succ_self [of "nextId st"]
      by auto
  qed
  have 6: "\<forall>e \<in> set m. id_t (snd e) = fst e"
    unfolding m_def
    by (rule ids_emplace) (use inv in \<open>simp_all add: engine_inv_def t_def Timer_ctor_def\<close>)
  show ?thesis
    unfolding st' engine_inv_def using 1 2 3 4 5 6 by simp
qed

text \<open>The worker takes the head of the queue out and marks it running.\<close>

lemma checkout_inv:
  assumes inv: "engine_inv st" and q: "queue st = k # q"
  shows "engine_inv (st\<lparr>queue := q,
            active := map_assign k (\<lambda>t. t\<lparr>running := True\<rparr>) (active st)\<rparr>)"
proof -
  let ?m = "map_assign k (\<lambda>t. t\<lparr>running := True\<rparr>) (active st)"
  have kq: "k \<notin> set q" using inv q by (simp add: engine_inv_def)
  have same: "timer_at ?m j = timer_at (active st) j" if "j \<in> set q" for j
  proof -
    have "j \<noteq> k" using that kq by blast
    then show ?thesis by (rule timer_at_map_assign_other)
  qed
  have 1: "\<not> dangling ?m q"
    using inv q by (auto simp: engine_inv_def dangling_iff map_of_map_assign)
  have 2: "distinct q" using inv q by (simp add: engine_inv_def)
  have 3: "sorted (map (\<lambda>j. next_t (timer_at ?m j)) q)"
    using inv q same by (simp add: engine_inv_def cong: map_cong)
  have 4: "\<forall>j \<in> set q. \<not> running (timer_at ?m j)"
    using inv q same by (simp add: engine_inv_def)
  have 5: "\<forall>e \<in> set ?m. fst e < nextId st"
  proof
    fix e assume "e \<in> set ?m"
    then have "fst e \<in> fst ` set ?m" by (rule imageI)
    then have "fst e \<in> fst ` set (active st)"
      by (simp add: keys_map_assign)
    then show "fst e < nextId st" using inv by (auto simp: engine_inv_def)
  qed
  have 6: "\<forall>e \<in> set ?m. id_t (snd e) = fst e"
    by (rule ids_assign) (use inv in \<open>simp_all add: engine_inv_def\<close>)
  show ?thesis unfolding engine_inv_def using 1 2 3 4 5 6 by simp
qed

lemma fire_inv:
  assumes inv: "engine_inv st" and fire: "timerThreadWorker_fire now st = Inr (a, st')"
  shows "engine_inv st'"
proof (cases "\<exists>k h. a = Invoke k h")
  case False
  then have "st' = st"
    using fire
    by (auto simp: timerThreadWorker_fire_def split: if_splits list.splits option.splits)
  with inv show ?thesis by simp
next
  case True
  then obtain k h where a: "a = Invoke k h" by blast
  obtain q where q: "queue st = k # q"
    and st': "st' = st\<lparr>queue := q,
                active := map_assign k (\<lambda>t. t\<lparr>running := True\<rparr>) (active st)\<rparr>"
    using fire a
    by (auto simp: timerThreadWorker_fire_def split: if_splits list.splits option.splits)
  show ?thesis unfolding st' using inv q by (rule checkout_inv)
qed

lemma keys_below_mono:
  assumes "\<forall>e \<in> set m. fst e < (n :: timer_id_t)" and "fst ` set m' \<subseteq> fst ` set m"
  shows "\<forall>e \<in> set m'. fst e < n"
proof
  fix e assume "e \<in> set m'"
  then have "fst e \<in> fst ` set m'" by (rule imageI)
  with assms(2) have "fst e \<in> fst ` set m" by blast
  with assms(1) show "fst e < n" by auto
qed



lemma keys_below_assign:
  "\<forall>e \<in> set m. fst e < (n :: timer_id_t) \<Longrightarrow> \<forall>e \<in> set (map_assign k f m). fst e < n"
  by (rule keys_below_mono [of m]) (simp_all add: keys_map_assign)

lemma keys_below_erase:
  "\<forall>e \<in> set m. fst e < (n :: timer_id_t) \<Longrightarrow> \<forall>e \<in> set (map_erase k m). fst e < n"
  by (rule keys_below_mono [of m]) (auto simp: keys_map_erase)

lemma inv_id:
  assumes "engine_inv st" and "map_of (active st) k = Some timer"
  shows "id_t timer = k"
proof -
  have "(k, timer) \<in> set (active st)" using assms(2) by (rule map_of_SomeD)
  with assms(1) show ?thesis by (auto simp: engine_inv_def)
qed

lemma reconcile_inv:
  assumes inv: "engine_inv st" and kq: "k \<notin> set (queue st)"
    and rec: "timerThreadWorker_reconcile k st = Inr (b, st')"
  shows "engine_inv st'"
proof -
  obtain timer where timer: "map_of (active st) k = Some timer"
    using rec by (auto simp: timerThreadWorker_reconcile_def split: option.splits)
  have idk: "id_t timer = k" using inv timer by (rule inv_id)
  show ?thesis
  proof (cases "running timer \<and> period timer > 0")
    case True
    let ?m = "map_assign k
                (\<lambda>t. t\<lparr>running := False, next_t := time_point_plus (next_t t) (period t)\<rparr>)
                (active st)"
    have st': "st' = st\<lparr>active := ?m, queue := queue_emplace ?m k (queue st)\<rparr>"
      using rec timer True
      by (auto simp: timerThreadWorker_reconcile_def Let_def split: if_splits)
    have same: "timer_at ?m j = timer_at (active st) j" if "j \<in> set (queue st)" for j
    proof -
      have "j \<noteq> k" using that kq by blast
      then show ?thesis by (rule timer_at_map_assign_other)
    qed
    have new: "timer_at ?m k =
        timer\<lparr>running := False, next_t := time_point_plus (next_t timer) (period timer)\<rparr>"
      using timer by (simp add: timer_at_def map_of_map_assign)
    have 1: "\<not> dangling ?m (queue_emplace ?m k (queue st))"
      using inv timer
      by (auto simp: engine_inv_def dangling_iff set_queue_emplace map_of_map_assign)
    have 2: "distinct (queue_emplace ?m k (queue st))"
      using inv kq by (simp add: distinct_queue_emplace engine_inv_def)
    have "sorted (map (\<lambda>j. next_t (timer_at ?m j)) (queue st))"
      using inv same by (simp add: engine_inv_def cong: map_cong)
    then have 3: "sorted (map (\<lambda>j. next_t (timer_at ?m j)) (queue_emplace ?m k (queue st)))"
      by (rule sorted_queue_emplace)
    have 4: "\<forall>j \<in> set (queue_emplace ?m k (queue st)). \<not> running (timer_at ?m j)"
      using inv same new by (auto simp: set_queue_emplace engine_inv_def)
    have 5: "\<forall>e \<in> set ?m. fst e < nextId st"
      using inv unfolding engine_inv_def by (intro keys_below_assign) simp
    have 6: "\<forall>e \<in> set ?m. id_t (snd e) = fst e"
      by (rule ids_assign) (use inv in \<open>simp_all add: engine_inv_def\<close>)
    show ?thesis unfolding st' engine_inv_def using 1 2 3 4 5 6 by simp
  next
    case False
    let ?m = "map_erase k (active st)"
    have st': "st' = st\<lparr>active := ?m\<rparr>"
      using rec timer False idk
      by (auto simp: timerThreadWorker_reconcile_def Let_def split: if_splits)
    have same: "timer_at ?m j = timer_at (active st) j" if "j \<in> set (queue st)" for j
    proof -
      have "j \<noteq> k" using that kq by blast
      then show ?thesis by (rule timer_at_map_erase_other)
    qed
    have 1: "\<not> dangling ?m (queue st)"
      using inv kq by (auto simp: engine_inv_def dangling_iff map_of_map_erase)
    have 3: "sorted (map (\<lambda>j. next_t (timer_at ?m j)) (queue st))"
      using inv same by (simp add: engine_inv_def cong: map_cong)
    have 4: "\<forall>j \<in> set (queue st). \<not> running (timer_at ?m j)"
      using inv same by (simp add: engine_inv_def)
    have 5: "\<forall>e \<in> set ?m. fst e < nextId st"
      using inv unfolding engine_inv_def by (intro keys_below_erase) simp
    have 6: "\<forall>e \<in> set ?m. id_t (snd e) = fst e"
      by (rule ids_erase) (use inv in \<open>simp add: engine_inv_def\<close>)
    show ?thesis unfolding st' engine_inv_def using inv 1 3 4 5 6 by (simp add: engine_inv_def)
  qed
qed

lemma destroy_impl_inv:
  assumes inv: "engine_inv st" and des: "destroy_impl owns i notify st = Inr (r, st')"
  shows "engine_inv st'"
proof (cases i)
  case None
  then have "st' = st" using des by (auto simp: destroy_impl_def split: if_splits)
  with inv show ?thesis by simp
next
  case (Some k)
  then obtain timer where timer: "map_of (active st) k = Some timer"
    using des by (auto simp: destroy_impl_def split: if_splits option.splits)
  have tk: "timer_at (active st) k = timer"
    using timer by (simp add: timer_at_def)
  show ?thesis
  proof (cases "running timer")
    case True
    let ?m = "map_assign k (\<lambda>t. t\<lparr>running := False, waitCond := True\<rparr>) (active st)"
    have st': "st' = st\<lparr>active := ?m\<rparr>"
      using des Some timer True by (auto simp: destroy_impl_def split: if_splits)
    have kq: "k \<notin> set (queue st)"
      using inv True tk by (auto simp: engine_inv_def)
    have same: "timer_at ?m j = timer_at (active st) j" if "j \<in> set (queue st)" for j
    proof -
      have "j \<noteq> k" using that kq by blast
      then show ?thesis by (rule timer_at_map_assign_other)
    qed
    have 1: "\<not> dangling ?m (queue st)"
      using inv by (auto simp: engine_inv_def dangling_iff map_of_map_assign)
    have 3: "sorted (map (\<lambda>j. next_t (timer_at ?m j)) (queue st))"
      using inv same by (simp add: engine_inv_def cong: map_cong)
    have 4: "\<forall>j \<in> set (queue st). \<not> running (timer_at ?m j)"
      using inv same by (simp add: engine_inv_def)
    have 5: "\<forall>e \<in> set ?m. fst e < nextId st"
      using inv unfolding engine_inv_def by (intro keys_below_assign) simp
    have 6: "\<forall>e \<in> set ?m. id_t (snd e) = fst e"
      by (rule ids_assign) (use inv in \<open>simp_all add: engine_inv_def\<close>)
    show ?thesis unfolding st' engine_inv_def using inv 1 3 4 5 6 by (simp add: engine_inv_def)
  next
    case False
    let ?m = "map_erase k (active st)"
    let ?q = "queue_erase_key (active st) k (queue st)"
    have st': "st' = st\<lparr>queue := ?q, active := ?m\<rparr>"
      using des Some timer False by (auto simp: destroy_impl_def split: if_splits)
    have sub: "set ?q \<subseteq> set (queue st)" and kq: "k \<notin> set ?q"
      by (auto simp: queue_erase_key_eq)
    have same: "timer_at ?m j = timer_at (active st) j" if "j \<in> set ?q" for j
    proof -
      have "j \<noteq> k" using that kq by blast
      then show ?thesis by (rule timer_at_map_erase_other)
    qed
    have 1: "\<not> dangling ?m ?q"
      using inv sub kq by (auto simp: engine_inv_def dangling_iff map_of_map_erase)
    have 2: "distinct ?q"
      using inv by (simp add: engine_inv_def queue_erase_key_eq)
    have "sorted (map (\<lambda>j. next_t (timer_at (active st) j)) ?q)"
      using inv by (simp add: engine_inv_def queue_erase_key_eq sorted_filter)
    then have 3: "sorted (map (\<lambda>j. next_t (timer_at ?m j)) ?q)"
      using same by (simp cong: map_cong)
    have 4: "\<forall>j \<in> set ?q. \<not> running (timer_at ?m j)"
      using inv same sub by (auto simp: engine_inv_def)
    have 5: "\<forall>e \<in> set ?m. fst e < nextId st"
      using inv unfolding engine_inv_def by (intro keys_below_erase) simp
    have 6: "\<forall>e \<in> set ?m. id_t (snd e) = fst e"
      by (rule ids_erase) (use inv in \<open>simp add: engine_inv_def\<close>)
    show ?thesis unfolding st' engine_inv_def using 1 2 3 4 5 6 by simp
  qed
qed

lemma clear_loop_inv:
  "engine_inv st \<Longrightarrow> clear_loop owns log st = Inr (fin, log', st') \<Longrightarrow> engine_inv st'"
proof (induction owns log st rule: clear_loop.induct)
  case (1 owns log st)
  show ?case
  proof (cases "active st = []")
    case True
    with "1.prems" show ?thesis by (simp add: clear_loop.simps [of owns log st])
  next
    case False
    then obtain r st1 where
      des: "destroy_impl owns (map_begin (active st)) (length (queue st) = 1) st = Inr (r, st1)"
      using "1.prems"(2)
      by (auto simp: clear_loop.simps [of owns log st] split: sum.splits)
    have inv1: "engine_inv st1" using "1.prems"(1) des by (rule destroy_impl_inv)
    show ?thesis
    proof (cases "waited r")
      case True
      then have "st' = st1"
        using "1.prems"(2) False des by (simp add: clear_loop.simps [of owns log st])
      with inv1 show ?thesis by simp
    next
      case w: False
      have "clear_loop (owns_lock r) (log @ [notified r]) st1 = Inr (fin, log', st')"
        using "1.prems"(2) False des w by (simp add: clear_loop.simps [of owns log st])
      with "1.IH" [OF False des refl w inv1] show ?thesis by simp
    qed
  qed
qed

subsection \<open>Turns of the worker\<close>

lemma sorted_hd_le:
  "sorted (map f q) \<Longrightarrow> q \<noteq> [] \<Longrightarrow> j \<in> set q \<Longrightarrow> f (hd q) \<le> f j"
  by (cases q) auto


lemma fire_cases:
  assumes inv: "engine_inv st"
  obtains (exit) "done_t st" "timerThreadWorker_fire now st = Inr (Exit, st)"
  | (idle) "\<not> done_t st" "queue st = []" "timerThreadWorker_fire now st = Inr (WaitWork, st)"
  | (wait) k q timer where "\<not> done_t st" "queue st = k # q"
      "map_of (active st) k = Some timer" "now < next_t timer"
      "timerThreadWorker_fire now st = Inr (WaitUntil (next_t timer), st)"
  | (due) k q timer where "\<not> done_t st" "queue st = k # q"
      "map_of (active st) k = Some timer" "next_t timer \<le> now"
      "timerThreadWorker_fire now st =
         Inr (Invoke k (handler timer),
              st\<lparr>queue := q,
                 active := map_assign k (\<lambda>t. t\<lparr>running := True\<rparr>) (active st)\<rparr>)"
proof (cases "done_t st")
  case True
  then show ?thesis by (intro exit) (simp_all add: timerThreadWorker_fire_def)
next
  case nd: False
  show ?thesis
  proof (cases "queue st")
    case Nil
    with nd show ?thesis by (intro idle) (simp_all add: timerThreadWorker_fire_def)
  next
    case (Cons k q)
    then obtain timer where timer: "map_of (active st) k = Some timer"
      using inv by (auto simp: engine_inv_def dangling_iff)
    show ?thesis
    proof (cases "next_t timer \<le> now")
      case True
      with nd Cons timer show ?thesis
        by (intro due [of k q timer]) (simp_all add: timerThreadWorker_fire_def)
    next
      case False
      with nd Cons timer show ?thesis
        by (intro wait [of k q timer]) (simp_all add: timerThreadWorker_fire_def)
    qed
  qed
qed

subsection \<open>The counter of ids\<close>

lemma destroy_impl_nextId:
  "destroy_impl owns i notify st = Inr (r, st') \<Longrightarrow> nextId st' = nextId st"
  by (auto simp: destroy_impl_def split: if_splits option.splits)

lemma clear_loop_nextId:
  "clear_loop owns log st = Inr (fin, log', st') \<Longrightarrow> nextId st' = nextId st"
proof (induction owns log st rule: clear_loop.induct)
  case (1 owns log st)
  show ?case
  proof (cases "active st = []")
    case True
    with "1.prems" show ?thesis by (simp add: clear_loop.simps [of owns log st])
  next
    case False
    then obtain r st1 where
      des: "destroy_impl owns (map_begin (active st)) (length (queue st) = 1) st = Inr (r, st1)"
      using "1.prems"
      by (auto simp: clear_loop.simps [of owns log st] split: sum.splits)
    have n1: "nextId st1 = nextId st" using des by (rule destroy_impl_nextId)
    show ?thesis
    proof (cases "waited r")
      case True
      then have "st' = st1"
        using "1.prems" False des by (simp add: clear_loop.simps [of owns log st])
      with n1 show ?thesis by simp
    next
      case w: False
      have "clear_loop (owns_lock r) (log @ [notified r]) st1 = Inr (fin, log', st')"
        using "1.prems" False des w by (simp add: clear_loop.simps [of owns log st])
      with "1.IH" [OF False des refl w] n1 show ?thesis by simp
    qed
  qed
qed

lemma call_step_nextId:
  assumes "call_step c st = Inr (r, st')"
  shows "nextId st' = (if is_schedule c then nextId st + 1 else nextId st)"
    and "r = (if is_schedule c then Some (nextId st) else None)"
proof -
  have "nextId st' = (if is_schedule c then nextId st + 1 else nextId st)
        \<and> r = (if is_schedule c then Some (nextId st) else None)"
  proof (cases c)
    case (AddTimer now d p h)
    with assms show ?thesis
      by (auto simp: addTimer_def Let_def split: if_splits)
  next
    case (SetInterval now h p)
    with assms show ?thesis
      by (auto simp: setInterval_def addTimer_def Let_def split: if_splits)
  next
    case (SetTimeout now h d)
    with assms show ?thesis
      by (auto simp: setTimeout_def addTimer_def Let_def split: if_splits)
  next
    case (ClearTimer i)
    with assms show ?thesis
      by (auto simp: clearTimer_def split: sum.splits dest: destroy_impl_nextId)
  next
    case Clear
    with assms show ?thesis
      by (auto simp: clear_def split: sum.splits prod.splits dest: clear_loop_nextId)
  next
    case (Fire now)
    with assms show ?thesis
      by (auto simp: timerThreadWorker_fire_def
          split: sum.splits if_splits list.splits option.splits)
  next
    case (Reconcile k)
    with assms show ?thesis
      by (auto simp: timerThreadWorker_reconcile_def Let_def
          split: sum.splits if_splits option.splits)
  qed
  then show "nextId st' = (if is_schedule c then nextId st + 1 else nextId st)"
    and "r = (if is_schedule c then Some (nextId st) else None)" by simp_all
qed

lemma unat_succ_cases:
  fixes x :: timer_id_t
  shows "(x + 1 \<noteq> 0 \<and> unat (x + 1) = Suc (unat x)) \<or> (x + 1 = 0 \<and> Suc (unat x) = 2 ^ 64)"
proof (cases "x + 1 = 0")
  case True
  then have "x = - 1" by (simp add: eq_neg_iff_add_eq_0)
  then have "Suc (unat x) = 2 ^ 64"
    by (simp add: unsigned_minus_1_eq_mask mask_eq_exp_minus_1)
  with True show ?thesis by simp
next
  case False
  then have "1 + x \<noteq> 0" by (simp add: add.commute)
  then have "unat (1 + x) = Suc (unat x)" by (rule unatSuc)
  with False show ?thesis by (simp add: add.commute)
qed

lemma issued_ids_bounds:
  assumes "unat (nextId st) + length (filter is_schedule cs) \<le> 2 ^ 64"
  shows "sorted_wrt (<) (issued_ids cs st)
       \<and> (\<forall>i \<in> set (issued_ids cs st).
             unat (nextId st) \<le> unat i
             \<and> unat i < unat (nextId st) + length (filter is_schedule cs))"
  using assms
proof (induction cs arbitrary: st)
  case Nil
  then show ?case by simp
next
  case (Cons c cs)
  show ?case
  proof (cases "call_step c st")
    case (Inl f)
    then show ?thesis by simp
  next
    case (Inr res)
    obtain r st' where res: "res = (r, st')" by (cases res)
    note step = call_step_nextId [OF Inr [unfolded res]]
    show ?thesis
    proof (cases "is_schedule c")
      case False
      with step have r: "r = None" and n: "nextId st' = nextId st" by simp_all
      have "unat (nextId st') + length (filter is_schedule cs) \<le> 2 ^ 64"
        using Cons.prems False n by simp
      from Cons.IH [OF this] show ?thesis
        using Inr res r n False by simp
    next
      case True
      with step have r: "r = Some (nextId st)" and n: "nextId st' = nextId st + 1"
        by simp_all
      have len: "Suc (unat (nextId st) + length (filter is_schedule cs)) \<le> 2 ^ 64"
        using Cons.prems True by simp
      have ids: "issued_ids (c # cs) st = nextId st # issued_ids cs st'"
        using Inr res r by simp
      from unat_succ_cases [of "nextId st"] show ?thesis
      proof (elim disjE conjE)
        assume "nextId st + 1 \<noteq> 0" and u: "unat (nextId st + 1) = Suc (unat (nextId st))"
        have "unat (nextId st') + length (filter is_schedule cs) \<le> 2 ^ 64"
          using len n u by simp
        from Cons.IH [OF this] show ?thesis
          using ids n u True by (auto simp: word_less_nat_alt)
      next
        assume z: "nextId st + 1 = 0" and m: "Suc (unat (nextId st)) = 2 ^ 64"
        have 0: "length (filter is_schedule cs) = 0" using len m by simp
        have "unat (nextId st') + length (filter is_schedule cs) \<le> 2 ^ 64"
          using n z 0 by simp
        from Cons.IH [OF this] have "issued_ids cs st' = []"
          using n z 0 by (cases "issued_ids cs st'") auto
        then show ?thesis using ids True by simp
      qed
    qed
  qed
qed

lemma addTimer_not_dangling:
  assumes "\<not> dangling (active st) (queue st)"
  shows "\<exists>b st'. addTimer now d p h st = Inr (nextId st, b, st')
           \<and> nextId st' = nextId st + 1 \<and> \<not> dangling (active st') (queue st')"
  using assms
  by (auto simp: addTimer_def Let_def dangling_iff set_queue_emplace map_of_map_emplace)

lemma map_upt_Suc_shift: "map f [0..<Suc n] = f 0 # map (\<lambda>i. f (Suc i)) [0..<n]"
proof -
  have "[0..<Suc n] = 0 # map Suc [0..<n]"
    by (simp only: map_Suc_upt upt_conv_Cons [of 0 "Suc n"] zero_less_Suc)
  then show ?thesis by (simp only: list.map map_map comp_def)
qed

lemma issued_ids_replicate_addTimer:
  assumes "\<not> dangling (active st) (queue st)"
  shows "issued_ids (replicate n (AddTimer now d p h)) st
           = map (\<lambda>i. nextId st + of_nat i) [0..<n]"
  using assms
proof (induction n arbitrary: st)
  case 0
  then show ?case by simp
next
  case (Suc n)
  obtain b st' where add: "addTimer now d p h st = Inr (nextId st, b, st')"
    and n': "nextId st' = nextId st + 1" and nd: "\<not> dangling (active st') (queue st')"
    using addTimer_not_dangling [OF Suc.prems] by blast
  have "issued_ids (replicate (Suc n) (AddTimer now d p h)) st
          = nextId st # issued_ids (replicate n (AddTimer now d p h)) st'"
    using add by simp
  also have "\<dots> = nextId st # map (\<lambda>i. nextId st + 1 + of_nat i) [0..<n]"
    using Suc.IH [OF nd] n' by simp
  also have "\<dots> = map (\<lambda>i. nextId st + of_nat i) [0..<Suc n]"
    unfolding map_upt_Suc_shift [of "\<lambda>i. nextId st + of_nat i" n]
    by (simp add: add.assoc)
  finally show ?case .
qed

subsection \<open>A cancel while the handler runs\<close>

text \<open>
  A cancel while the handler runs, as far as the two critical sections go: the one
  of \<^verbatim>\<open>destroy_impl\<close> clears \<^verbatim>\<open>running\<close>, assigns \<^verbatim>\<open>waitCond\<close> and begins to wait;
  the one of the worker after the handler finds \<^verbatim>\<open>running\<close> cleared, notifies
  \<^verbatim>\<open>waitCond\<close> and erases the timer. When the waiting thread resumes is not part of
  this.
\<close>

lemma cancel_during_callback:
  assumes inv: "engine_inv st" and timer: "map_of (active st) k = Some timer"
    and run: "running timer"
  shows "\<exists>st1 st2.
           clearTimer k st =
             Inr (\<lparr>returned = True, waited = True, notified = False, owns_lock = True\<rparr>, st1)
           \<and> map_of (active st1) k = Some (timer\<lparr>running := False, waitCond := True\<rparr>)
           \<and> queue st1 = queue st
           \<and> timerThreadWorker_reconcile k st1 = Inr (True, st2)
           \<and> map_of (active st2) k = None \<and> k \<notin> set (queue st2) \<and> engine_inv st2"
proof -
  let ?st1 = "st\<lparr>active := map_assign k (\<lambda>t. t\<lparr>running := False, waitCond := True\<rparr>)
                          (active st)\<rparr>"
  let ?st2 = "?st1\<lparr>active := map_erase k (active ?st1)\<rparr>"
  have idk: "id_t timer = k" using inv timer by (rule inv_id)
  have tk: "timer_at (active st) k = timer" using timer by (simp add: timer_at_def)
  have kq: "k \<notin> set (queue st)"
    using inv run tk by (auto simp: engine_inv_def)
  have c: "clearTimer k st =
      Inr (\<lparr>returned = True, waited = True, notified = False, owns_lock = True\<rparr>, ?st1)"
    using timer run by (simp add: clearTimer_def map_find_def destroy_impl_def)
  then have "destroy_impl True (Some k) True st =
      Inr (\<lparr>returned = True, waited = True, notified = False, owns_lock = True\<rparr>, ?st1)"
    using timer by (simp add: clearTimer_def map_find_def)
  with inv have inv1: "engine_inv ?st1" by (rule destroy_impl_inv)
  have t1: "map_of (active ?st1) k = Some (timer\<lparr>running := False, waitCond := True\<rparr>)"
    using timer by (simp add: map_of_map_assign)
  have r: "timerThreadWorker_reconcile k ?st1 = Inr (True, ?st2)"
    using t1 idk by (simp add: timerThreadWorker_reconcile_def)
  have inv2: "engine_inv ?st2"
    using inv1 _ r by (rule reconcile_inv) (use kq in simp)
  have "map_of (active ?st2) k = None" by (simp add: map_of_map_erase)
  with c t1 r kq inv2 show ?thesis
    by (intro exI [of _ ?st1] exI [of _ ?st2]) simp
qed

subsection \<open>Engines reached by runs of calls\<close>

lemma call_step_inv:
  assumes inv: "engine_inv st" and step: "call_step c st = Inr (r, st')"
    and nowrap: "is_schedule c \<longrightarrow> nextId st + 1 \<noteq> 0"
    and norec: "\<forall>k. c = Reconcile k \<longrightarrow> k \<notin> set (queue st)"
  shows "engine_inv st'"
proof (cases c)
  case (AddTimer now d p h)
  with step obtain i b where "addTimer now d p h st = Inr (i, b, st')"
    by (auto split: sum.splits)
  with inv nowrap AddTimer show ?thesis by (auto intro: addTimer_inv)
next
  case (SetInterval now h p)
  with step obtain i b where "addTimer now p p h st = Inr (i, b, st')"
    by (auto simp: setInterval_def split: sum.splits)
  with inv nowrap SetInterval show ?thesis by (auto intro: addTimer_inv)
next
  case (SetTimeout now h d)
  with step obtain i b where "addTimer now d 0 h st = Inr (i, b, st')"
    by (auto simp: setTimeout_def split: sum.splits)
  with inv nowrap SetTimeout show ?thesis by (auto intro: addTimer_inv)
next
  case (ClearTimer i)
  with step obtain res where "destroy_impl True (map_find (active st) i) True st = Inr (res, st')"
    by (auto simp: clearTimer_def split: sum.splits)
  with inv show ?thesis by (rule destroy_impl_inv)
next
  case Clear
  with step obtain fin log where "clear_loop True [] st = Inr (fin, log, st')"
    by (auto simp: clear_def split: sum.splits)
  with inv show ?thesis by (rule clear_loop_inv)
next
  case (Fire now)
  with step obtain a where "timerThreadWorker_fire now st = Inr (a, st')"
    by (auto split: sum.splits)
  with inv show ?thesis by (rule fire_inv)
next
  case (Reconcile k)
  with step obtain b where "timerThreadWorker_reconcile k st = Inr (b, st')"
    by (auto split: sum.splits)
  with inv norec Reconcile show ?thesis by (auto intro: reconcile_inv)
qed

text \<open>
  Calls of the public member functions and checks of the worker, made on a new
  engine, lead to engines that satisfy \<open>engine_inv\<close>, as long as the counter of ids has
  not wrapped.
\<close>

lemma run_calls_inv:
  assumes "engine_inv st" and "run_calls cs st = Inr st'"
    and "unat (nextId st) + length (filter is_schedule cs) < 2 ^ 64"
    and "\<forall>c \<in> set cs. \<forall>k. c \<noteq> Reconcile k"
  shows "engine_inv st'"
  using assms
proof (induction cs arbitrary: st)
  case Nil
  then show ?case by simp
next
  case (Cons c cs)
  from Cons.prems(2) obtain r st1 where step: "call_step c st = Inr (r, st1)"
    and rest: "run_calls cs st1 = Inr st'"
    by (auto split: sum.splits)
  note n1 = call_step_nextId(1) [OF step]
  have nowrap: "is_schedule c \<longrightarrow> nextId st + 1 \<noteq> 0"
  proof
    assume "is_schedule c"
    then have "Suc (unat (nextId st)) < 2 ^ 64" using Cons.prems(3) by simp
    with unat_succ_cases [of "nextId st"] show "nextId st + 1 \<noteq> 0" by auto
  qed
  have inv1: "engine_inv st1"
    using Cons.prems(1) step nowrap by (rule call_step_inv) (use Cons.prems(4) in auto)
  have "unat (nextId st1) + length (filter is_schedule cs) < 2 ^ 64"
  proof (cases "is_schedule c")
    case True
    with nowrap unat_succ_cases [of "nextId st"] n1
    have "unat (nextId st1) = Suc (unat (nextId st))" by auto
    with Cons.prems(3) True show ?thesis by simp
  next
    case False
    with n1 Cons.prems(3) show ?thesis by simp
  qed
  with Cons.IH [OF inv1 rest] Cons.prems(4) show ?case by simp
qed

lemma run_calls_ctor_inv:
  assumes "run_calls cs TimerThread_ctor = Inr st"
    and "Suc (length (filter is_schedule cs)) < 2 ^ 64"
    and "\<forall>c \<in> set cs. \<forall>k. c \<noteq> Reconcile k"
  shows "engine_inv st"
proof (rule run_calls_inv [OF engine_inv_ctor assms(1) _ assms(3)])
  show "unat (nextId TimerThread_ctor) + length (filter is_schedule cs) < 2 ^ 64"
    using assms(2) by (simp add: TimerThread_ctor_def no_timer_def)
qed

subsection \<open>The example engines are reached from the constructor\<close>

lemmas eval_simps =
  time_point_plus_def wrap_int64_def TimerThread_ctor_def addTimer_def dangling_def no_timer_def map_emplace_def Timer_ctor_def
  timer_at_def NextActiveComparator_def timerThreadWorker_fire_def map_assign_def
  clear_def clear_loop.simps map_begin_def
  timerThreadWorker_reconcile_def map_erase_def clearTimer_def map_find_def destroy_impl_def
  queue_erase_key_def

lemma engine_10_20_reached:
  "run_calls [AddTimer 0 10 0 0, AddTimer 0 20 0 1] TimerThread_ctor = Inr engine_10_20"
  by (simp add: engine_10_20_def eval_simps)

lemma engine_negative_period_reached:
  "run_calls [AddTimer 0 0 (- 5) 0, Fire 0] TimerThread_ctor = Inr engine_negative_period"
  by (simp add: engine_negative_period_def eval_simps)

lemma engine_periodic_fired_reached:
  "run_calls [AddTimer 0 0 3 0, AddTimer 0 7 0 1, Fire 2] TimerThread_ctor
     = Inr engine_periodic_fired"
  by (simp add: engine_periodic_fired_def eval_simps)

lemma engine_oneshot_fired_reached:
  "run_calls [AddTimer 0 4 0 0, Fire 5000] TimerThread_ctor = Inr engine_oneshot_fired"
  by (simp add: engine_oneshot_fired_def eval_simps)

lemma engine_overdue_reached:
  "run_calls [AddTimer 0 (- 10) 0 0] TimerThread_ctor = Inr engine_overdue"
  by (simp add: engine_overdue_def eval_simps)

lemma engine_same_deadline_reached:
  "run_calls [AddTimer 0 5 0 0, AddTimer 2000 3 0 1] TimerThread_ctor
     = Inr engine_same_deadline"
  by (simp add: engine_same_deadline_def eval_simps)

lemma engine_three_reached:
  "run_calls [AddTimer 0 3 0 0, AddTimer 1000 5 0 1, AddTimer 2000 1 0 2] TimerThread_ctor
     = Inr engine_three"
  by (simp add: engine_three_def eval_simps)

lemma engine_period_max_reached:
  "run_calls [AddTimer 0 0 9223372036854775807 0, Fire 0] TimerThread_ctor
     = Inr engine_period_max"
  by (simp add: engine_period_max_def eval_simps)

lemma engine_in_callback_reached:
  "run_calls [AddTimer 0 5 0 0, Fire 6000] TimerThread_ctor = Inr engine_in_callback"
  by (simp add: engine_in_callback_def eval_simps)

subsection \<open>Runs of the worker among the callers\<close>

lemma armed_in_order_append:
  "armed_in_order lst (es @ rest) \<longleftrightarrow>
     armed_in_order lst es \<and> armed_in_order (last_after lst es) rest"
  by (induction lst es rule: armed_in_order.induct) auto

lemma fired_targets_append: "fired_targets (es @ rest) = fired_targets es @ fired_targets rest"
  by (induction es rule: fired_targets.induct) auto

lemma next_t_map_assign:
  assumes "\<And>t. next_t (f t) = next_t t" and "j \<noteq> k \<or> map_of m k \<noteq> None"
  shows "next_t (timer_at (map_assign k f m) j) = next_t (timer_at m j)"
proof (cases "j = k")
  case True
  with assms(2) have "map_of m k \<noteq> None" by simp
  then have "timer_at (map_assign k f m) k = f (timer_at m k)"
    by (rule timer_at_map_assign_same)
  with True assms(1) show ?thesis by simp
next
  case False
  then show ?thesis by (simp add: timer_at_map_assign_other)
qed

lemma destroy_impl_queue:
  assumes inv: "engine_inv st" and des: "destroy_impl owns i notify st = Inr (r, st')"
  shows "set (queue st') \<subseteq> set (queue st)"
    and "\<forall>j \<in> set (queue st'). next_t (timer_at (active st') j) = next_t (timer_at (active st) j)"
proof -
  have "set (queue st') \<subseteq> set (queue st)
      \<and> (\<forall>j \<in> set (queue st').
            next_t (timer_at (active st') j) = next_t (timer_at (active st) j))"
  proof (cases i)
    case None
    then have "st' = st" using des by (auto simp: destroy_impl_def split: if_splits)
    then show ?thesis by simp
  next
    case (Some k)
    then obtain timer where timer: "map_of (active st) k = Some timer"
      using des by (auto simp: destroy_impl_def split: if_splits option.splits)
    show ?thesis
    proof (cases "running timer")
      case True
      let ?m = "map_assign k (\<lambda>t. t\<lparr>running := False, waitCond := True\<rparr>) (active st)"
      have st': "st' = st\<lparr>active := ?m\<rparr>"
        using des Some timer True by (auto simp: destroy_impl_def split: if_splits)
      have "next_t (timer_at ?m j) = next_t (timer_at (active st) j)" for j
        by (rule next_t_map_assign) (use timer in simp_all)
      then show ?thesis by (simp add: st')
    next
      case False
      let ?q = "queue_erase_key (active st) k (queue st)"
      have st': "st' = st\<lparr>queue := ?q, active := map_erase k (active st)\<rparr>"
        using des Some timer False by (auto simp: destroy_impl_def split: if_splits)
      have sub: "set ?q \<subseteq> set (queue st)" and kq: "k \<notin> set ?q"
        by (auto simp: queue_erase_key_eq)
      have "timer_at (map_erase k (active st)) j = timer_at (active st) j" if "j \<in> set ?q" for j
      proof -
        have "j \<noteq> k" using that kq by blast
        then show ?thesis by (rule timer_at_map_erase_other)
      qed
      with sub show ?thesis by (simp add: st')
    qed
  qed
  then show "set (queue st') \<subseteq> set (queue st)"
    and "\<forall>j \<in> set (queue st'). next_t (timer_at (active st') j) = next_t (timer_at (active st) j)"
    by simp_all
qed

lemma clear_loop_queue:
  "engine_inv st \<Longrightarrow> clear_loop owns log st = Inr (fin, log', st')
   \<Longrightarrow> set (queue st') \<subseteq> set (queue st)
       \<and> (\<forall>j \<in> set (queue st').
             next_t (timer_at (active st') j) = next_t (timer_at (active st) j))"
proof (induction owns log st rule: clear_loop.induct)
  case (1 owns log st)
  show ?case
  proof (cases "active st = []")
    case True
    with "1.prems" show ?thesis by (simp add: clear_loop.simps [of owns log st])
  next
    case False
    then obtain r st1 where
      des: "destroy_impl owns (map_begin (active st)) (length (queue st) = 1) st = Inr (r, st1)"
      using "1.prems"(2)
      by (auto simp: clear_loop.simps [of owns log st] split: sum.splits)
    have inv1: "engine_inv st1" using "1.prems"(1) des by (rule destroy_impl_inv)
    note q1 = destroy_impl_queue [OF "1.prems"(1) des]
    show ?thesis
    proof (cases "waited r")
      case True
      then have "st' = st1"
        using "1.prems"(2) False des by (simp add: clear_loop.simps [of owns log st])
      with q1 show ?thesis by simp
    next
      case w: False
      have "clear_loop (owns_lock r) (log @ [notified r]) st1 = Inr (fin, log', st')"
        using "1.prems"(2) False des w by (simp add: clear_loop.simps [of owns log st])
      from "1.IH" [OF False des refl w inv1 this] q1 show ?thesis by auto
    qed
  qed
qed

lemma queue_from_shrink:
  assumes "queue_from lst st" and "set (queue st') \<subseteq> set (queue st)"
    and "\<forall>j \<in> set (queue st'). next_t (timer_at (active st') j) = next_t (timer_at (active st) j)"
  shows "queue_from lst st'"
  using assms by (auto simp: queue_from_def split: option.splits)

lemma word_less_succ_trans:
  fixes k i :: timer_id_t
  assumes "k < i" and "i + 1 \<noteq> 0"
  shows "k < i + 1"
  using word_less_succ [OF assms(1)] assms(2) by simp

lemma addTimer_step:
  assumes inv: "engine_inv st" and add: "addTimer now d p h st = Inr (i, b, st')"
  shows "i = nextId st" and "set (queue st') = insert i (set (queue st))"
    and "\<forall>j \<in> set (queue st). timer_at (active st') j = timer_at (active st) j"
    and "nextId st' = nextId st + 1"
proof -
  define m where
    "m = map_emplace (nextId st) (Timer_ctor (nextId st) (time_point_plus now (sint d)) (sint p) h)
           (active st)"
  have nd: "\<not> dangling (active st) (queue st)" using inv by (simp add: engine_inv_def)
  have st': "st' = st\<lparr>nextId := nextId st + 1, active := m,
                     queue := queue_emplace m (nextId st) (queue st), worker_joinable := True\<rparr>"
    and i: "i = nextId st"
    using add nd by (auto simp: addTimer_def Let_def m_def)
  note fresh = inv_fresh [OF inv]
  show "i = nextId st" by (rule i)
  show "set (queue st') = insert i (set (queue st))"
    by (simp add: st' i set_queue_emplace)
  show "nextId st' = nextId st + 1" by (simp add: st')
  show "\<forall>j \<in> set (queue st). timer_at (active st') j = timer_at (active st) j"
  proof
    fix j assume "j \<in> set (queue st)"
    then have "j \<noteq> nextId st" using fresh(2) by blast
    then show "timer_at (active st') j = timer_at (active st) j"
      by (simp add: st' m_def timer_at_map_emplace_other)
  qed
qed

lemma schedule_call:
  assumes "is_schedule c" and "call_step c st = Inr (r, st')"
  obtains now d p h i b where "addTimer now d p h st = Inr (i, b, st')" and "r = Some i"
  using assms
  by (cases c) (auto simp: setInterval_def setTimeout_def split: sum.splits)

lemma client_call:
  assumes inv: "engine_inv st" and "\<not> is_schedule c" and "call_step c st = Inr (r, st')"
    and "\<forall>now. c \<noteq> Fire now" and "\<forall>k. c \<noteq> Reconcile k"
  shows "r = None" and "engine_inv st'" and "nextId st' = nextId st"
    and "set (queue st') \<subseteq> set (queue st)"
    and "\<forall>j \<in> set (queue st'). next_t (timer_at (active st') j) = next_t (timer_at (active st) j)"
proof -
  have "r = None \<and> engine_inv st' \<and> nextId st' = nextId st
      \<and> set (queue st') \<subseteq> set (queue st)
      \<and> (\<forall>j \<in> set (queue st').
            next_t (timer_at (active st') j) = next_t (timer_at (active st) j))"
  proof (cases c)
    case (ClearTimer i)
    with assms(3) obtain res where
      des: "destroy_impl True (map_find (active st) i) True st = Inr (res, st')" and r: "r = None"
      by (auto simp: clearTimer_def split: sum.splits)
    from destroy_impl_inv [OF inv des] destroy_impl_queue [OF inv des] destroy_impl_nextId [OF des] r
    show ?thesis by simp
  next
    case Clear
    with assms(3) obtain fin log where
      cl: "clear_loop True [] st = Inr (fin, log, st')" and r: "r = None"
      by (auto simp: clear_def split: sum.splits)
    from clear_loop_inv [OF inv cl] clear_loop_queue [OF inv cl] clear_loop_nextId [OF cl] r
    show ?thesis by simp
  qed (use assms in auto)
  then show "r = None" and "engine_inv st'" and "nextId st' = nextId st"
    and "set (queue st') \<subseteq> set (queue st)"
    and "\<forall>j \<in> set (queue st'). next_t (timer_at (active st') j) = next_t (timer_at (active st) j)"
    by simp_all
qed

lemma threads_step_inv:
  assumes tinv: "threads_inv pc st lst"
    and step: "threads_step c pc st = Inr (es, pc', st')"
    and ord: "armed_in_order lst es"
    and nowrap: "is_schedule c \<longrightarrow> nextId st + 1 \<noteq> 0"
  shows "threads_inv pc' st' (last_after lst es)"
    and "fired_targets es = [] \<or>
         (\<exists>k u. es = [Fired k u] \<and> (case lst of None \<Rightarrow> True | Some v \<Rightarrow> v \<le> u))"
proof -
  have inv: "engine_inv st" and qf: "queue_from lst st"
    and pcq: "\<And>k. pc = Some k \<Longrightarrow> k \<notin> set (queue st) \<and> k < nextId st"
    using tinv by (auto simp: threads_inv_def)
  have "threads_inv pc' st' (last_after lst es)
      \<and> (fired_targets es = [] \<or>
         (\<exists>k u. es = [Fired k u] \<and> (case lst of None \<Rightarrow> True | Some v \<Rightarrow> v \<le> u)))"
  proof (cases "\<exists>now. c = Fire now")
    case True
    then obtain now where c: "c = Fire now" by blast
    show ?thesis
    proof (cases pc)
      case (Some k)
      with step c have "es = []" "pc' = pc" "st' = st" by auto
      with tinv show ?thesis by simp
    next
      case None
      from inv show ?thesis
      proof (cases rule: fire_cases [where now = now])
        case exit
        with step c None have "es = []" "pc' = None" "st' = st" by auto
        with tinv None show ?thesis by simp
      next
        case idle
        with step c None have "es = []" "pc' = None" "st' = st" by auto
        with tinv None show ?thesis by simp
      next
        case (wait k q timer)
        with step c None have "es = []" "pc' = None" "st' = st" by auto
        with tinv None show ?thesis by simp
      next
        case (due k q timer)
        have tk: "timer_at (active st) k = timer" using due(3) by (simp add: timer_at_def)
        let ?st1 = "st\<lparr>queue := q,
                       active := map_assign k (\<lambda>t. t\<lparr>running := True\<rparr>) (active st)\<rparr>"
        have es: "es = [Fired k (next_t timer)]" and pc': "pc' = Some k" and st': "st' = ?st1"
          using step c None due(5) tk by auto
        have inv1: "engine_inv ?st1" using inv due(2) by (rule checkout_inv)
        have kq: "k \<notin> set q" using inv due(2) by (simp add: engine_inv_def)
        have srt: "sorted (map (\<lambda>j. next_t (timer_at (active st) j)) (queue st))"
          using inv by (simp add: engine_inv_def)
        have "(k, timer) \<in> set (active st)" using due(3) by (rule map_of_SomeD)
        then have kn: "k < nextId st" using inv by (auto simp: engine_inv_def)
        have bound: "next_t timer \<le> next_t (timer_at (active ?st1) j)" if "j \<in> set q" for j
        proof -
          have "j \<noteq> k" using that kq by blast
          then have "timer_at (active ?st1) j = timer_at (active st) j"
            by (simp add: timer_at_map_assign_other)
          moreover have "next_t timer \<le> next_t (timer_at (active st) j)"
            using sorted_hd_le [OF srt, of j] that due(2) tk by simp
          ultimately show ?thesis by simp
        qed
        have 1: "threads_inv (Some k) ?st1 (Some (next_t timer))"
          using inv1 kq kn bound by (simp add: threads_inv_def queue_from_def)
        have 2: "case lst of None \<Rightarrow> True | Some v \<Rightarrow> v \<le> next_t timer"
          using qf due(2) tk by (auto simp: queue_from_def split: option.splits)
        from 1 2 show ?thesis by (simp add: es pc' st')
      qed
    qed
  next
    case nofire: False
    show ?thesis
    proof (cases "\<exists>j. c = Reconcile j")
      case True
      then obtain j where c: "c = Reconcile j" by blast
      show ?thesis
      proof (cases "pc = Some j")
        case False
        with step c have "es = []" "pc' = pc" "st' = st" by auto
        with tinv show ?thesis by simp
      next
        case True
        then obtain b where rec: "timerThreadWorker_reconcile j st = Inr (b, st')"
          and pc': "pc' = None"
          and es: "es = (if running (timer_at (active st) j) \<and> period (timer_at (active st) j) > 0
                         then [Armed (next_t (timer_at (active st') j))] else [])"
          using step c by (auto split: sum.splits)
        have jq: "j \<notin> set (queue st)" using pcq [OF True] by simp
        have inv': "engine_inv st'" using inv jq rec by (rule reconcile_inv)
        obtain timer where timer: "map_of (active st) j = Some timer"
          using rec by (auto simp: timerThreadWorker_reconcile_def split: option.splits)
        have tj: "timer_at (active st) j = timer" using timer by (simp add: timer_at_def)
        have idj: "id_t timer = j" using inv timer by (rule inv_id)
        show ?thesis
        proof (cases "running timer \<and> period timer > 0")
          case rearm: True
          let ?m = "map_assign j
                      (\<lambda>t. t\<lparr>running := False,
                             next_t := time_point_plus (next_t t) (period t)\<rparr>)
                      (active st)"
          have st': "st' = st\<lparr>active := ?m, queue := queue_emplace ?m j (queue st)\<rparr>"
            using rec timer rearm
            by (auto simp: timerThreadWorker_reconcile_def Let_def split: if_splits)
          have es': "es = [Armed (next_t (timer_at (active st') j))]"
            using es rearm tj by simp
          have same: "timer_at ?m i = timer_at (active st) i" if "i \<in> set (queue st)" for i
          proof -
            have "i \<noteq> j" using that jq by blast
            then show ?thesis by (rule timer_at_map_assign_other)
          qed
          have "queue_from lst st'"
          proof (cases lst)
            case None
            then show ?thesis by (simp add: queue_from_def)
          next
            case (Some u)
            have "u \<le> next_t (timer_at (active st') j)"
              using ord es' Some by simp
            moreover have "u \<le> next_t (timer_at (active st') i)" if "i \<in> set (queue st)" for i
              using qf Some that same [OF that] by (simp add: queue_from_def st')
            ultimately show ?thesis
              using Some by (auto simp: queue_from_def st' set_queue_emplace)
          qed
          with inv' show ?thesis by (simp add: threads_inv_def pc' es')
        next
          case False
          have st': "st' = st\<lparr>active := map_erase j (active st)\<rparr>"
            using rec timer False idj
            by (auto simp: timerThreadWorker_reconcile_def Let_def split: if_splits)
          have es': "es = []" using es False tj by auto
          have same: "timer_at (active st') i = timer_at (active st) i"
            if "i \<in> set (queue st)" for i
          proof -
            have "i \<noteq> j" using that jq by blast
            then show ?thesis by (simp add: st' timer_at_map_erase_other)
          qed
          have "queue_from lst st'"
            by (rule queue_from_shrink [OF qf]) (use same in \<open>simp_all add: st'\<close>)
          with inv' show ?thesis by (simp add: threads_inv_def pc' es')
        qed
      qed
    next
      case norec: False
      obtain r where cs: "call_step c st = Inr (r, st')" and pc': "pc' = pc"
        and es: "es = (case r of None \<Rightarrow> []
                       | Some i \<Rightarrow> [Armed (next_t (timer_at (active st') i))])"
        using step nofire norec by (cases c) (auto split: sum.splits option.splits)
      show ?thesis
      proof (cases "is_schedule c")
        case True
        then obtain now d p h i b where add: "addTimer now d p h st = Inr (i, b, st')"
          and r: "r = Some i"
          using cs by (rule schedule_call)
        note a = addTimer_step [OF inv add]
        have nw: "nextId st + 1 \<noteq> 0" using nowrap True by simp
        have inv': "engine_inv st'" using inv nw add by (rule addTimer_inv)
        have es': "es = [Armed (next_t (timer_at (active st') i))]" using es r by simp
        have "queue_from lst st'"
        proof (cases lst)
          case None
          then show ?thesis by (simp add: queue_from_def)
        next
          case (Some u)
          have "u \<le> next_t (timer_at (active st') i)"
            using ord es' Some by simp
          moreover have "u \<le> next_t (timer_at (active st') j)" if "j \<in> set (queue st)" for j
            using qf Some that a(3) by (simp add: queue_from_def)
          ultimately show ?thesis
            using Some a(2) by (auto simp: queue_from_def)
        qed
        moreover have "k \<notin> set (queue st') \<and> k < nextId st'" if "pc = Some k" for k
        proof -
          from pcq [OF that] have kq: "k \<notin> set (queue st)" and kn: "k < nextId st" by simp_all
          from kn have "k \<noteq> i" using a(1) by auto
          moreover have "k < nextId st + 1" using kn nw by (rule word_less_succ_trans)
          ultimately show ?thesis using kq a(2) a(4) by simp
        qed
        ultimately show ?thesis
          using inv' by (auto simp: threads_inv_def pc' es' split: option.splits)
      next
        case False
        note cc = client_call [OF inv False cs]
        have f: "\<forall>now. c \<noteq> Fire now" and g: "\<forall>k. c \<noteq> Reconcile k"
          using nofire norec by auto
        have es': "es = []" using es cc(1) [OF f g] by simp
        have "queue_from lst st'"
          using qf cc(4) [OF f g] cc(5) [OF f g] by (rule queue_from_shrink)
        moreover have "k \<notin> set (queue st') \<and> k < nextId st'" if "pc = Some k" for k
          using pcq [OF that] cc(3) [OF f g] cc(4) [OF f g] by auto
        ultimately show ?thesis
          using cc(2) [OF f g] by (auto simp: threads_inv_def pc' es' split: option.splits)
      qed
    qed
  qed
  then show "threads_inv pc' st' (last_after lst es)"
    and "fired_targets es = [] \<or>
         (\<exists>k u. es = [Fired k u] \<and> (case lst of None \<Rightarrow> True | Some v \<Rightarrow> v \<le> u))"
    by simp_all
qed

lemma threads_step_nextId:
  assumes "threads_step c pc st = Inr (es, pc', st')"
  shows "nextId st' = (if is_schedule c then nextId st + 1 else nextId st)"
proof -
  have "(\<exists>r. call_step c st = Inr (r, st')) \<or> (st' = st \<and> \<not> is_schedule c)"
    using assms
    by (cases c) (auto split: option.splits sum.splits worker_action.splits if_splits)
  then show ?thesis
  proof
    assume "\<exists>r. call_step c st = Inr (r, st')"
    then obtain r where "call_step c st = Inr (r, st')" by blast
    then show ?thesis by (rule call_step_nextId(1))
  next
    assume "st' = st \<and> \<not> is_schedule c"
    then show ?thesis by simp
  qed
qed

lemma threads_log_sorted:
  assumes "threads_inv pc st lst"
    and "armed_in_order lst (threads_log cs pc st)"
    and "unat (nextId st) + length (filter is_schedule cs) < 2 ^ 64"
  shows "sorted (fired_targets (threads_log cs pc st))
       \<and> (\<forall>t \<in> set (fired_targets (threads_log cs pc st)).
             case lst of None \<Rightarrow> True | Some v \<Rightarrow> v \<le> t)"
  using assms
proof (induction cs arbitrary: pc st lst)
  case Nil
  then show ?case by simp
next
  case (Cons c cs)
  show ?case
  proof (cases "threads_step c pc st")
    case (Inl f)
    then show ?thesis by simp
  next
    case (Inr res)
    obtain es pc' st' where res: "res = (es, pc', st')" by (cases res)
    have step: "threads_step c pc st = Inr (es, pc', st')" using Inr res by simp
    have log: "threads_log (c # cs) pc st = es @ threads_log cs pc' st'"
      using step by simp
    have ord: "armed_in_order lst es"
      and ord': "armed_in_order (last_after lst es) (threads_log cs pc' st')"
      using Cons.prems(2) unfolding log armed_in_order_append by simp_all
    have nowrap: "is_schedule c \<longrightarrow> nextId st + 1 \<noteq> 0"
    proof
      assume "is_schedule c"
      then have "Suc (unat (nextId st)) < 2 ^ 64" using Cons.prems(3) by simp
      with unat_succ_cases [of "nextId st"] show "nextId st + 1 \<noteq> 0" by auto
    qed
    note si = threads_step_inv [OF Cons.prems(1) step ord nowrap]
    have cnt: "unat (nextId st') + length (filter is_schedule cs) < 2 ^ 64"
    proof (cases "is_schedule c")
      case True
      with nowrap unat_succ_cases [of "nextId st"] threads_step_nextId [OF step]
      have "unat (nextId st') = Suc (unat (nextId st))" by auto
      with Cons.prems(3) True show ?thesis by simp
    next
      case False
      with threads_step_nextId [OF step] Cons.prems(3) show ?thesis by simp
    qed
    from Cons.IH [OF si(1) ord' cnt]
    have srt: "sorted (fired_targets (threads_log cs pc' st'))"
      and lb: "\<forall>t \<in> set (fired_targets (threads_log cs pc' st')).
                 case last_after lst es of None \<Rightarrow> True | Some v \<Rightarrow> v \<le> t"
      by simp_all
    from si(2) show ?thesis
    proof
      assume e: "fired_targets es = []"
      have "last_after lst es = lst"
        using e by (induction es rule: fired_targets.induct) simp_all
      with srt lb e show ?thesis unfolding log by (simp add: fired_targets_append)
    next
      assume "\<exists>k u. es = [Fired k u] \<and> (case lst of None \<Rightarrow> True | Some v \<Rightarrow> v \<le> u)"
      then obtain k u where es: "es = [Fired k u]"
        and lu: "case lst of None \<Rightarrow> True | Some v \<Rightarrow> v \<le> u" by blast
      have lb': "\<forall>t \<in> set (fired_targets (threads_log cs pc' st')). u \<le> t"
        using lb es by simp
      have "sorted (u # fired_targets (threads_log cs pc' st'))"
        using srt lb' by simp
      moreover have "\<forall>t \<in> set (u # fired_targets (threads_log cs pc' st')).
                       case lst of None \<Rightarrow> True | Some v \<Rightarrow> v \<le> t"
        using lu lb' by (auto split: option.splits)
      ultimately show ?thesis unfolding log es by simp
    qed
  qed
qed

lemma threads_inv_ctor: "threads_inv None TimerThread_ctor None"
  by (simp add: threads_inv_def queue_from_def engine_inv_ctor)

lemma threads_log_client_prefix:
  assumes "\<forall>c \<in> set cs. (\<forall>now. c \<noteq> Fire now) \<and> (\<forall>k. c \<noteq> Reconcile k)"
    and "run_calls cs st = Inr st'"
  shows "\<exists>es. threads_log (cs @ ys) pc st = es @ threads_log ys pc st'
              \<and> fired_targets es = []"
  using assms
proof (induction cs arbitrary: st)
  case Nil
  then show ?case by simp
next
  case (Cons c cs)
  from Cons.prems(2) obtain r st1 where step: "call_step c st = Inr (r, st1)"
    and rest: "run_calls cs st1 = Inr st'"
    by (auto split: sum.splits)
  have client: "(\<forall>now. c \<noteq> Fire now) \<and> (\<forall>k. c \<noteq> Reconcile k)"
    using Cons.prems(1) by simp
  obtain es0 where s: "threads_step c pc st = Inr (es0, pc, st1)" and f0: "fired_targets es0 = []"
    using step client by (cases c; cases r) auto
  obtain es1 where l: "threads_log (cs @ ys) pc st1 = es1 @ threads_log ys pc st'"
    and f1: "fired_targets es1 = []"
    using Cons.IH [OF _ rest] Cons.prems(1) by auto
  have "threads_log ((c # cs) @ ys) pc st = (es0 @ es1) @ threads_log ys pc st'"
    using s l by simp
  moreover have "fired_targets (es0 @ es1) = []"
    using f0 f1 by (simp add: fired_targets_append)
  ultimately show ?case by blast
qed

lemma armed_in_order_prefix:
  "fired_targets es = [] \<Longrightarrow> armed_in_order None (es @ rest) = armed_in_order None rest"
  by (induction es rule: fired_targets.induct) simp_all

subsection \<open>The engine whose counter has gone round\<close>

lemma run_calls_append:
  "run_calls (xs @ ys) st =
     (case run_calls xs st of Inl f \<Rightarrow> Inl f | Inr st' \<Rightarrow> run_calls ys st')"
  by (induction xs arbitrary: st) (auto split: sum.splits)

lemma filter_queue_emplace:
  assumes "\<not> P k" and "\<forall>j \<in> set q. P j"
  shows "filter P (queue_emplace m k q) = q"
  using assms by (induction q) auto

lemma add_then_clear:
  assumes nd: "\<not> dangling (active st) (queue st)"
    and fresh: "map_of (active st) (nextId st) = None"
    and diff: "\<forall>j \<in> set (queue st).
                 next_t (timer_at (active st) j) \<noteq> time_point_plus now (sint d)"
    and wj: "worker_joinable st"
  shows "run_calls [AddTimer now d p h, ClearTimer (nextId st)] st
           = Inr (st\<lparr>nextId := nextId st + 1\<rparr>)"
proof -
  define i where "i = nextId st"
  define t where "t = Timer_ctor i (time_point_plus now (sint d)) (sint p) h"
  define m where "m = (i, t) # active st"
  define st1 where "st1 = st\<lparr>nextId := nextId st + 1, active := m,
                     queue := queue_emplace m i (queue st), worker_joinable := True\<rparr>"
  have iq: "i \<notin> set (queue st)"
    using nd fresh by (auto simp: dangling_iff i_def)
  have add: "addTimer now d p h st = Inr (i, queue_emplace_pos m i (queue st) = 0, st1)"
    using nd fresh
    by (simp add: addTimer_def Let_def map_emplace_def i_def t_def m_def st1_def)
  have ti: "timer_at m i = t" by (simp add: timer_at_def m_def)
  have same: "timer_at m j = timer_at (active st) j" if "j \<in> set (queue st)" for j
    using that iq by (auto simp: timer_at_def m_def)
  have nd1: "\<not> dangling (active st1) (queue st1)"
    using nd by (auto simp: dangling_iff st1_def set_queue_emplace m_def)
  have q: "queue_erase_key m i (queue_emplace m i (queue st)) = queue st"
    unfolding queue_erase_key_eq
    by (rule filter_queue_emplace)
       (use diff same ti in \<open>auto simp: t_def Timer_ctor_def\<close>)
  have e: "map_erase i m = active st"
  proof -
    have "i \<notin> fst ` set (active st)"
      using fresh by (simp add: i_def map_of_eq_None_iff)
    then have "\<forall>e \<in> set (active st). fst e \<noteq> i"
      by force
    then have "filter (\<lambda>e. fst e \<noteq> i) (active st) = active st"
      by (simp add: filter_id_conv)
    then show ?thesis by (simp add: map_erase_def m_def)
  qed
  have "clearTimer i st1 =
      Inr (\<lparr>returned = True, waited = False, notified = True, owns_lock = False\<rparr>,
           st1\<lparr>queue := queue st, active := active st\<rparr>)"
    using nd1 q e
    by (simp add: clearTimer_def map_find_def destroy_impl_def st1_def m_def t_def
        Timer_ctor_def)
  moreover have "st1\<lparr>queue := queue st, active := active st\<rparr> = st\<lparr>nextId := nextId st + 1\<rparr>"
    using wj by (simp add: st1_def)
  ultimately show ?thesis
    using add by (simp add: i_def)
qed

lemma add_then_clear_many:
  assumes "\<not> dangling (active st) (queue st)"
    and "\<forall>x < n. map_of (active st) (nextId st + of_nat x) = None"
    and "\<forall>j \<in> set (queue st).
           next_t (timer_at (active st) j) \<noteq> time_point_plus now (sint d)"
    and "worker_joinable st"
  shows "run_calls
           (concat (map (\<lambda>x. [AddTimer now d p h, ClearTimer (nextId st + of_nat x)]) [0..<n]))
           st
         = Inr (st\<lparr>nextId := nextId st + of_nat n\<rparr>)"
  using assms
proof (induction n arbitrary: st)
  case 0
  then show ?case by simp
next
  case (Suc n)
  let ?st1 = "st\<lparr>nextId := nextId st + 1\<rparr>"
  have fresh0: "map_of (active st) (nextId st) = None"
    using Suc.prems(2) [rule_format, of 0] by simp
  have pair: "run_calls [AddTimer now d p h, ClearTimer (nextId st)] st = Inr ?st1"
    using Suc.prems(1) fresh0 Suc.prems(3,4) by (rule add_then_clear)
  have fresh1: "\<forall>x < n. map_of (active ?st1) (nextId ?st1 + of_nat x) = None"
  proof (intro allI impI)
    fix x assume "x < n"
    then have "Suc x < Suc n" by simp
    with Suc.prems(2) have "map_of (active st) (nextId st + of_nat (Suc x)) = None"
      by blast
    then show "map_of (active ?st1) (nextId ?st1 + of_nat x) = None"
      by (simp add: ac_simps)
  qed
  have rest: "run_calls
      (concat (map (\<lambda>x. [AddTimer now d p h, ClearTimer (nextId ?st1 + of_nat x)]) [0..<n])) ?st1
      = Inr (?st1\<lparr>nextId := nextId ?st1 + of_nat n\<rparr>)"
    by (rule Suc.IH) (use Suc.prems fresh1 in simp_all)
  have split: "concat (map (\<lambda>x. [AddTimer now d p h, ClearTimer (nextId st + of_nat x)])
                  [0..<Suc n])
      = [AddTimer now d p h, ClearTimer (nextId st)]
        @ concat (map (\<lambda>x. [AddTimer now d p h, ClearTimer (nextId ?st1 + of_nat x)]) [0..<n])"
    unfolding map_upt_Suc_shift [of _ n]
    by (simp add: add.assoc add.commute [of 1])
  show ?case
    unfolding split run_calls_append pair using rest
    by (simp add: add.assoc add.commute [of 1])
qed

lemma engine_wrapped_reached: "run_calls wrap_calls TimerThread_ctor = Inr engine_wrapped"
proof -
  let ?s1 = "\<lparr>nextId = 2,
      active = [(1, \<lparr>id_t = 1, next_t = 0, period = 10, handler = 0 :: nat,
                     waitCond = False, running = False\<rparr>)],
      queue = [1], done_t = False, worker_joinable = True\<rparr>"
  have first: "call_step (AddTimer 0 0 10 0) TimerThread_ctor = Inr (Some 1, ?s1)"
    by (simp add: eval_simps)
  have fresh: "\<forall>x < 2 ^ 64 - 1. map_of (active ?s1) (nextId ?s1 + of_nat x) = None"
  proof (intro allI impI)
    fix x :: nat assume x: "x < 2 ^ 64 - 1"
    have "(2 :: timer_id_t) + of_nat x \<noteq> 1"
    proof
      assume "(2 :: timer_id_t) + of_nat x = 1"
      then have "(of_nat (x + 1) :: timer_id_t) = 0" by simp
      then have "unat (of_nat (x + 1) :: timer_id_t) = 0" by simp
      moreover have "unat (of_nat (x + 1) :: timer_id_t) = x + 1"
        using x by (simp add: unat_of_nat del: of_nat_add of_nat_Suc)
      ultimately show False by simp
    qed
    then show "map_of (active ?s1) (nextId ?s1 + of_nat x) = None" by simp
  qed
  have "run_calls
      (concat (map (\<lambda>x. [AddTimer 0 5 0 1, ClearTimer (nextId ?s1 + of_nat x)])
         [0..<2 ^ 64 - 1])) ?s1
      = Inr (?s1\<lparr>nextId := nextId ?s1 + of_nat (2 ^ 64 - 1)\<rparr>)"
    by (rule add_then_clear_many [OF _ fresh])
       (simp_all add: dangling_def timer_at_def time_point_plus_def wrap_int64_def)
  moreover have "?s1\<lparr>nextId := nextId ?s1 + of_nat (2 ^ 64 - 1)\<rparr> = engine_wrapped"
    by (simp add: engine_wrapped_def)
  ultimately show ?thesis
    using first by (simp add: wrap_calls_def)
qed

lemma wrap_calls_client:
  "\<forall>c \<in> set wrap_calls. (\<forall>now. c \<noteq> Fire now) \<and> (\<forall>k. c \<noteq> Reconcile k)"
  by (auto simp: wrap_calls_def)

subsection \<open>Claims\<close>

text \<open>
  C1 fails when a second thread cancels the timer during the same callback. The
  handler of timer 1 of \<open>engine_in_callback\<close> is being executed. A first
  \<^verbatim>\<open>clearTimer(1)\<close> clears \<^verbatim>\<open>running\<close>, assigns \<^verbatim>\<open>waitCond\<close> and waits, as the
  claim says. A second \<^verbatim>\<open>clearTimer(1)\<close>, made while the handler is still being
  executed, finds \<^verbatim>\<open>running\<close> cleared and takes the branch of \<^verbatim>\<open>destroy_impl\<close> for a
  timer that is not running: it does not wait, it erases the timer (and the condition
  variable on which the first caller waits) and returns \<open>True\<close> before the handler has
  returned. When the handler returns, the worker reads \<^verbatim>\<open>timer.running\<close> through its
  reference to the erased timer.
\<close>

theorem C1_second_cancel_returns_during_callback:
  "run_calls [AddTimer 0 5 0 0, Fire 6000] TimerThread_ctor = Inr engine_in_callback
   \<and> in_callback (timer_at (active engine_in_callback) 1)
   \<and> clearTimer 1 engine_in_callback =
       Inr (\<lparr>returned = True, waited = True, notified = False, owns_lock = True\<rparr>,
            engine_in_callback
              \<lparr>active := [(1, \<lparr>id_t = 1, next_t = 5000, period = 0, handler = 0,
                               waitCond = True, running = False\<rparr>)]\<rparr>)
   \<and> in_callback \<lparr>id_t = 1, next_t = 5000, period = 0, handler = (0 :: nat),
                    waitCond = True, running = False\<rparr>
   \<and> clearTimer 1
        (engine_in_callback
           \<lparr>active := [(1, \<lparr>id_t = 1, next_t = 5000, period = 0, handler = 0,
                            waitCond = True, running = False\<rparr>)]\<rparr>) =
       Inr (\<lparr>returned = True, waited = False, notified = True, owns_lock = False\<rparr>,
            engine_in_callback\<lparr>active := []\<rparr>)
   \<and> timerThreadWorker_reconcile 1 (engine_in_callback\<lparr>active := []\<rparr>)
       = Inl DanglingReference"
  by (simp add: engine_in_callback_def in_callback_def eval_simps)

text \<open>
  C2, as the specification has it, fails for a negative period: the worker tests
  \<^verbatim>\<open>timer.period.count() > 0\<close>, so a timer whose period is not zero but negative is
  erased after its first firing, like a one-shot timer. Here the timer with period
  \<open>-5\<close> is running, no cancel has touched it, and the worker erases it. It also fails
  for a positive period when \<^verbatim>\<open>timer.next + timer.period\<close> overflows the 64-bit count
  of ticks: with \<^verbatim>\<open>next\<close> at 0 and the largest period, the new \<^verbatim>\<open>next\<close> is one
  microsecond before the previous one, not one period after it.
\<close>

theorem C2_counterexample:
  "map_of (active engine_negative_period) 1 =
      Some \<lparr>id_t = 1, next_t = 0, period = - 5, handler = 0, waitCond = False, running = True\<rparr>
   \<and> timerThreadWorker_reconcile 1 engine_negative_period =
      Inr (False, engine_negative_period\<lparr>active := []\<rparr>)
   \<and> map_of (active engine_period_max) 1 =
      Some \<lparr>id_t = 1, next_t = 0, period = 9223372036854775807, handler = 0,
            waitCond = False, running = True\<rparr>
   \<and> timerThreadWorker_reconcile 1 engine_period_max =
      Inr (False,
           engine_period_max
             \<lparr>active := [(1, \<lparr>id_t = 1, next_t = - 1000, period = 9223372036854775807,
                              handler = 0, waitCond = False, running = False\<rparr>)],
              queue := [1]\<rparr>)"
  by (simp add: engine_negative_period_def engine_period_max_def eval_simps)

text \<open>
  C2, amended. Take a timer stored in the map under its own id. When its handler
  returns and no cancel has cleared \<^verbatim>\<open>running\<close> meanwhile: if the period is
  positive and the previous \<^verbatim>\<open>next\<close> plus one period (in ticks of the clock) fits
  the signed 64-bit count of ticks, \<^verbatim>\<open>next\<close> becomes the previous \<^verbatim>\<open>next\<close> plus one
  period (the clock is not read), \<^verbatim>\<open>running\<close> is cleared and the timer is put back
  into the queue; if the period is zero or negative, the timer is erased from the map
  and the queue is left as it is.
\<close>

theorem C2_reconcile_without_cancel:
  assumes "map_of (active st) k = Some timer" and "id_t timer = k" and "running timer"
    and "\<not> dangling (active st) (queue st)"
  shows "(period timer > 0 \<and> fits_int64 (next_t timer + 1000 * period timer) \<longrightarrow>
            (\<exists>st'. timerThreadWorker_reconcile k st = Inr (False, st')
               \<and> map_of (active st') k =
                    Some (timer\<lparr>running := False,
                                next_t := next_t timer + 1000 * period timer\<rparr>)
               \<and> set (queue st') = insert k (set (queue st))))
       \<and> (period timer \<le> 0 \<longrightarrow>
            (\<exists>st'. timerThreadWorker_reconcile k st = Inr (False, st')
               \<and> map_of (active st') k = None \<and> queue st' = queue st))"
  using assms
  by (simp add: timerThreadWorker_reconcile_def Let_def map_of_map_assign map_of_map_erase
      set_queue_emplace time_point_plus_def wrap_int64_fits)

theorem C2_witness:
  "(\<exists>st'. timerThreadWorker_reconcile 1 engine_periodic_fired = Inr (False, st')
      \<and> map_of (active st') 1 =
           Some \<lparr>id_t = 1, next_t = 3000, period = 3, handler = 0, waitCond = False,
                 running = False\<rparr>
      \<and> set (queue st') = {1, 2})
   \<and> (\<exists>st'. timerThreadWorker_reconcile 1 engine_oneshot_fired = Inr (False, st')
      \<and> map_of (active st') 1 = None \<and> queue st' = [])"
proof -
  have a: "map_of (active engine_periodic_fired) 1 =
      Some \<lparr>id_t = 1, next_t = 0, period = 3, handler = 0, waitCond = False, running = True\<rparr>"
    by (simp add: engine_periodic_fired_def)
  have b: "\<not> dangling (active engine_periodic_fired) (queue engine_periodic_fired)"
    by (simp add: engine_periodic_fired_def dangling_def)
  have c: "map_of (active engine_oneshot_fired) 1 =
      Some \<lparr>id_t = 1, next_t = 4000, period = 0, handler = 0, waitCond = False, running = True\<rparr>"
    by (simp add: engine_oneshot_fired_def)
  have d: "\<not> dangling (active engine_oneshot_fired) (queue engine_oneshot_fired)"
    by (simp add: engine_oneshot_fired_def dangling_def)
  have 1: "\<exists>st'. timerThreadWorker_reconcile 1 engine_periodic_fired = Inr (False, st')
      \<and> map_of (active st') 1 =
           Some \<lparr>id_t = 1, next_t = 3000, period = 3, handler = 0, waitCond = False,
                 running = False\<rparr>
      \<and> set (queue st') = {1, 2}"
    using C2_reconcile_without_cancel [OF a _ _ b]
    by (simp add: engine_periodic_fired_def fits_int64_def)
  have 2: "\<exists>st'. timerThreadWorker_reconcile 1 engine_oneshot_fired = Inr (False, st')
      \<and> map_of (active st') 1 = None \<and> queue st' = []"
    using C2_reconcile_without_cancel [OF c _ _ d] by (simp add: engine_oneshot_fired_def)
  from 1 2 show ?thesis by blast
qed

text \<open>
  C3. On an engine whose queue has no dangling reference, \<^verbatim>\<open>clearTimer(id)\<close> returns
  a value, and the value is \<open>False\<close> exactly when the map holds no timer under the
  id. When the map holds one that is not running, the call returns \<open>True\<close> without
  waiting, and in the engine it leaves the id is neither in the queue nor in the map, so
  that a second \<^verbatim>\<open>clearTimer\<close> of the same id returns \<open>False\<close>.
\<close>

theorem C3_clearTimer_false_iff_unknown:
  assumes "\<not> dangling (active st) (queue st)"
  shows "\<exists>r st'. clearTimer i st = Inr (r, st')
           \<and> (returned r = False \<longleftrightarrow> map_of (active st) i = None)
           \<and> (\<forall>timer. map_of (active st) i = Some timer \<and> \<not> running timer \<longrightarrow>
                 returned r \<and> \<not> waited r
                 \<and> i \<notin> set (queue st') \<and> map_of (active st') i = None
                 \<and> (\<exists>st''. clearTimer i st' =
                       Inr (\<lparr>returned = False, waited = False, notified = False,
                             owns_lock = True\<rparr>, st'')))"
proof (cases "map_of (active st) i")
  case None
  then show ?thesis
    by (simp add: clearTimer_def map_find_def destroy_impl_def)
next
  case (Some timer)
  show ?thesis
  proof (cases "running timer")
    case True
    with Some show ?thesis
      by (simp add: clearTimer_def map_find_def destroy_impl_def)
  next
    case False
    have "i \<notin> set (queue_erase_key (active st) i (queue st))"
      by (simp add: queue_erase_key_eq)
    with Some False assms show ?thesis
      by (simp add: clearTimer_def map_find_def destroy_impl_def map_of_map_erase)
  qed
qed

theorem C3_witness:
  "\<not> dangling (active engine_10_20) (queue engine_10_20)
   \<and> (\<exists>st'. clearTimer 1 engine_10_20 =
          Inr (\<lparr>returned = True, waited = False, notified = True, owns_lock = False\<rparr>, st')
        \<and> clearTimer 1 st' =
          Inr (\<lparr>returned = False, waited = False, notified = False, owns_lock = True\<rparr>, st'))
   \<and> (\<exists>st'. clearTimer 7 engine_10_20 =
          Inr (\<lparr>returned = False, waited = False, notified = False, owns_lock = True\<rparr>, st'))"
proof -
  have h: "\<not> dangling (active engine_10_20) (queue engine_10_20)"
    by (simp add: engine_10_20_def dangling_def)
  from C3_clearTimer_false_iff_unknown [OF h, of 1] C3_clearTimer_false_iff_unknown [OF h, of 7]
  show ?thesis
    using h
    by (simp add: engine_10_20_def clearTimer_def map_find_def destroy_impl_def dangling_def
        queue_erase_key_def map_erase_def timer_at_def NextActiveComparator_def)
qed

text \<open>
  C4, as the specification has it, fails: \<^verbatim>\<open>clearTimer\<close> calls \<^verbatim>\<open>destroy_impl\<close> with
  \<^verbatim>\<open>notify = true\<close>, whatever the position of the timer. Here the timer due at 20 is
  removed; the head of the queue is the timer due at 10 before and after, and the worker
  is notified all the same.
\<close>

theorem C4_counterexample:
  "clearTimer 2 engine_10_20 =
     Inr (\<lparr>returned = True, waited = False, notified = True, owns_lock = False\<rparr>,
          engine_10_20\<lparr>queue := [1], active := [(1, timer_at (active engine_10_20) 1)]\<rparr>)
   \<and> hd (queue engine_10_20) = 1
   \<and> next_t (timer_at (active engine_10_20) 1) = 10000"
  by (simp add: engine_10_20_def eval_simps)

text \<open>
  C4, amended. When \<^verbatim>\<open>clearTimer\<close> removes a timer that is not running, it always
  releases the lock and calls \<^verbatim>\<open>wakeUp.notify_all()\<close>, whether or not the removal
  changes the earliest deadline.
\<close>

theorem C4_clearTimer_always_notifies:
  assumes "\<not> dangling (active st) (queue st)"
    and "map_of (active st) i = Some timer" and "\<not> running timer"
  shows "\<exists>st'. clearTimer i st =
           Inr (\<lparr>returned = True, waited = False, notified = True, owns_lock = False\<rparr>, st')"
  using assms by (simp add: clearTimer_def map_find_def destroy_impl_def)

theorem C4_witness:
  "\<exists>st'. clearTimer 1 engine_10_20 =
           Inr (\<lparr>returned = True, waited = False, notified = True, owns_lock = False\<rparr>, st')"
proof -
  have a: "\<not> dangling (active engine_10_20) (queue engine_10_20)"
    by (simp add: engine_10_20_def dangling_def)
  have b: "map_of (active engine_10_20) 1 =
      Some \<lparr>id_t = 1, next_t = 10000, period = 0, handler = 0, waitCond = False, running = False\<rparr>"
    by (simp add: engine_10_20_def)
  show ?thesis using C4_clearTimer_always_notifies [OF a b] by simp
qed

text \<open>
  C5, as stated, fails once the counter wraps: \<^verbatim>\<open>nextId\<close> is a 64-bit unsigned
  integer that starts at 1 and is incremented at each call, so of \<open>2 ^ 64\<close> calls of
  \<^verbatim>\<open>addTimer\<close> on a new engine the last one returns \<^verbatim>\<open>no_timer\<close>, and the ids
  repeat from there.
\<close>

theorem C5_counterexample:
  "issued_ids (replicate (2 ^ 64) (AddTimer 0 0 0 (0 :: nat))) TimerThread_ctor
     ! (2 ^ 64 - 1) = no_timer"
proof -
  have nd: "\<not> dangling (active (TimerThread_ctor :: nat TimerThread))
              (queue (TimerThread_ctor :: nat TimerThread))"
    by (simp add: TimerThread_ctor_def dangling_def)
  have lt: "(2 ^ 64 - 1 :: nat) < 2 ^ 64" by simp
  have "issued_ids (replicate (2 ^ 64) (AddTimer 0 0 0 (0 :: nat))) TimerThread_ctor
          ! (2 ^ 64 - 1)
        = map (\<lambda>i. nextId (TimerThread_ctor :: nat TimerThread) + of_nat i) [0..<2 ^ 64]
          ! (2 ^ 64 - 1)"
    by (simp only: issued_ids_replicate_addTimer [OF nd])
  also have "\<dots> = nextId (TimerThread_ctor :: nat TimerThread) + of_nat (2 ^ 64 - 1)"
    using lt by (simp only: nth_map length_upt nth_upt minus_nat.diff_0 add_0)
  also have "\<dots> = (0 :: timer_id_t)"
    by (simp add: TimerThread_ctor_def no_timer_def)
  finally show ?thesis by (simp only: no_timer_def)
qed

text \<open>
  C5, amended. Take any run of calls on a new engine (calls of \<^verbatim>\<open>addTimer\<close>,
  \<^verbatim>\<open>setInterval\<close>, \<^verbatim>\<open>setTimeout\<close>, \<^verbatim>\<open>clearTimer\<close>, \<^verbatim>\<open>clear\<close> and turns of the
  worker, in any order) in which fewer than \<open>2 ^ 64\<close> calls schedule a timer. The ids
  that the run returns are strictly increasing, so no id is returned twice, and none
  of them is \<^verbatim>\<open>no_timer\<close>.
\<close>

theorem C5_ids_nonzero_increasing:
  assumes "length (filter is_schedule cs) < 2 ^ 64"
  shows "sorted_wrt (<) (issued_ids cs TimerThread_ctor)
       \<and> distinct (issued_ids cs TimerThread_ctor)
       \<and> no_timer \<notin> set (issued_ids cs TimerThread_ctor)"
proof -
  let ?st = "TimerThread_ctor :: 'a TimerThread"
  have one: "unat (nextId ?st) = 1"
    by (simp add: TimerThread_ctor_def no_timer_def)
  have "unat (nextId ?st) + length (filter is_schedule cs) \<le> 2 ^ 64"
    using assms one by simp
  from issued_ids_bounds [OF this]
  have srt: "sorted_wrt (<) (issued_ids cs ?st)"
    and lb: "\<forall>i \<in> set (issued_ids cs ?st). 1 \<le> unat i"
    using one by simp_all
  have "distinct (issued_ids cs ?st)"
    using srt by (simp add: strict_sorted_iff)
  moreover have "no_timer \<notin> set (issued_ids cs ?st)"
  proof
    assume "no_timer \<in> set (issued_ids cs ?st)"
    with lb have "1 \<le> unat no_timer" by blast
    then show False by (simp add: no_timer_def)
  qed
  ultimately show ?thesis using srt by simp
qed

theorem C5_witness:
  "issued_ids [AddTimer 0 5 0 (0 :: nat), ClearTimer 1, SetInterval 0 1 2, Clear,
               SetTimeout 3 2 0] TimerThread_ctor = [1, 2, 3]
   \<and> sorted_wrt (<) [1, 2, 3 :: timer_id_t] \<and> distinct [1, 2, 3 :: timer_id_t]
   \<and> no_timer \<notin> set [1, 2, 3 :: timer_id_t]"
proof -
  let ?cs = "[AddTimer 0 5 0 (0 :: nat), ClearTimer 1, SetInterval 0 1 2, Clear,
              SetTimeout 3 2 0]"
  have a: "length (filter is_schedule ?cs) < 2 ^ 64" by simp
  have b: "issued_ids ?cs TimerThread_ctor = [1, 2, 3]"
    by (simp add: eval_simps setInterval_def setTimeout_def)
  have c: "sorted_wrt (<) [1, 2, 3 :: timer_id_t] \<and> distinct [1, 2, 3 :: timer_id_t]
           \<and> no_timer \<notin> set [1, 2, 3 :: timer_id_t]"
    using C5_ids_nonzero_increasing [OF a] unfolding b .
  from b c show ?thesis by (rule conjI)
qed

text \<open>
  C6, as stated, fails in three ways. (1) A timer is scheduled with a deadline before
  the target time of an invocation that has been made: a timer due at 10 microseconds
  fires at clock reading 12; during its handler \<^verbatim>\<open>addTimer\<close> is called with delay
  \<open>-100\<close>; the worker then fires the new timer: the target times are 10 and \<open>-88\<close>
  microseconds. (2) The deadline of a periodic timer overflows: with \<^verbatim>\<open>next\<close> at 0
  and the largest period the target times are 0 and \<open>-1\<close> microsecond. (3) The counter
  of ids has gone round: on the engine reached by \<open>wrap_calls\<close> the next
  \<^verbatim>\<open>addTimer\<close> gets the id of the periodic timer that is still queued and puts a
  second reference to it into the queue; the worker then changes \<^verbatim>\<open>next\<close> of a
  timer that the queue refers to, and fires the targets 0, 10 and 1 microseconds in
  this order, although no timer was put into the queue with a deadline before the
  latest target.
\<close>

theorem C6_counterexample:
  "fired_targets
     (threads_log [AddTimer 0 10 0 0, Fire 12000, AddTimer 12000 (- 100) 0 1, Reconcile 1,
                   Fire 12000] None (TimerThread_ctor :: nat TimerThread))
     = [10000, - 88000]
   \<and> fired_targets
       (threads_log [AddTimer 0 0 9223372036854775807 0, Fire 0, Reconcile 1, Fire 0]
          None (TimerThread_ctor :: nat TimerThread))
     = [0, - 1000]
   \<and> armed_in_order None
       (threads_log
          (wrap_calls @ [AddTimer 0 0 0 2, AddTimer 0 1 0 3, Fire 20000, Reconcile 1,
                         Fire 20000, Reconcile 1, Fire 20000])
          None TimerThread_ctor)
   \<and> fired_targets
       (threads_log
          (wrap_calls @ [AddTimer 0 0 0 2, AddTimer 0 1 0 3, Fire 20000, Reconcile 1,
                         Fire 20000, Reconcile 1, Fire 20000])
          None TimerThread_ctor)
     = [0, 10000, 1000]"
proof -
  let ?S = "[AddTimer 0 0 0 2, AddTimer 0 1 0 3, Fire 20000, Reconcile 1, Fire 20000,
             Reconcile 1, Fire 20000] :: nat call list"
  have a: "fired_targets
     (threads_log [AddTimer 0 10 0 0, Fire 12000, AddTimer 12000 (- 100) 0 1, Reconcile 1,
                   Fire 12000] None (TimerThread_ctor :: nat TimerThread))
     = [10000, - 88000]"
    by (simp add: eval_simps)
  have b: "fired_targets
       (threads_log [AddTimer 0 0 9223372036854775807 0, Fire 0, Reconcile 1, Fire 0]
          None (TimerThread_ctor :: nat TimerThread))
     = [0, - 1000]"
    by (simp add: eval_simps)
  have s: "threads_log ?S None engine_wrapped
      = [Armed 0, Armed 1000, Fired 1 0, Armed 10000, Fired 1 10000, Armed 20000,
         Fired 2 1000]"
    by (simp add: engine_wrapped_def eval_simps)
  obtain es where l: "threads_log (wrap_calls @ ?S) None TimerThread_ctor
      = es @ threads_log ?S None engine_wrapped" and f: "fired_targets es = []"
    using threads_log_client_prefix [OF wrap_calls_client engine_wrapped_reached] by blast
  have c: "armed_in_order None (threads_log (wrap_calls @ ?S) None TimerThread_ctor)"
    unfolding l armed_in_order_prefix [OF f] s by simp
  have d: "fired_targets (threads_log (wrap_calls @ ?S) None TimerThread_ctor)
      = [0, 10000, 1000]"
    unfolding l fired_targets_append f s by simp
  from a b c d show ?thesis by (intro conjI)
qed

text \<open>
  C6, amended. On an engine that satisfies \<open>engine_inv\<close> the worker invokes, if any,
  the handler of a timer of the queue that is due and whose deadline is minimal among
  the deadlines of the queue. For every run, from the constructor, of schedule calls,
  cancels and turns of the worker in any interleaving, in which fewer than
  \<open>2 ^ 64 - 1\<close> schedule calls are made and no timer is put into the queue (by a
  schedule call, or by the worker with \<^verbatim>\<open>next + period\<close>) with a deadline earlier than
  the target time of the latest invocation before it, the target times of the handler
  invocations are non-decreasing in the order of the invocations.
\<close>

theorem C6_worker_fires_in_deadline_order:
  assumes inv: "engine_inv st"
    and cnt: "Suc (length (filter is_schedule cs)) < 2 ^ 64"
    and ord: "armed_in_order None (threads_log cs None TimerThread_ctor)"
  shows "(\<forall>now k h st'. timerThreadWorker_fire now st = Inr (Invoke k h, st') \<longrightarrow>
            k \<in> set (queue st)
            \<and> next_t (timer_at (active st) k) \<le> now
            \<and> (\<forall>j \<in> set (queue st).
                  next_t (timer_at (active st) k) \<le> next_t (timer_at (active st) j)))
       \<and> sorted (fired_targets (threads_log cs None TimerThread_ctor))"
proof (intro conjI allI impI)
  fix now k h st'
  assume fire: "timerThreadWorker_fire now st = Inr (Invoke k h, st')"
  have srt: "sorted (map (\<lambda>j. next_t (timer_at (active st) j)) (queue st))"
    using inv by (simp add: engine_inv_def)
  from inv obtain q timer where q: "queue st = k # q"
    and timer: "map_of (active st) k = Some timer" and due: "next_t timer \<le> now"
    by (cases rule: fire_cases [where now = now]) (use fire in auto)
  have tk: "timer_at (active st) k = timer" using timer by (simp add: timer_at_def)
  show "k \<in> set (queue st)" using q by simp
  show "next_t (timer_at (active st) k) \<le> now" using tk due by simp
  show "\<forall>j \<in> set (queue st).
          next_t (timer_at (active st) k) \<le> next_t (timer_at (active st) j)"
    using sorted_hd_le [OF srt] q by auto
next
  have "unat (nextId (TimerThread_ctor :: 'b TimerThread)) + length (filter is_schedule cs) < 2 ^ 64"
    using cnt by (simp add: TimerThread_ctor_def no_timer_def)
  from threads_log_sorted [OF threads_inv_ctor ord this]
  show "sorted (fired_targets (threads_log cs None TimerThread_ctor))" by simp
qed

theorem C6_witness:
  "engine_inv engine_10_20
   \<and> (\<exists>st'. timerThreadWorker_fire 12000 engine_10_20 = Inr (Invoke 1 0, st'))
   \<and> threads_log [AddTimer 0 0 3 0, Fire 0, AddTimer 1000 1 0 1, ClearTimer 7, Fire 5,
                   Reconcile 1, Fire 2000, Reconcile 2, Fire 3000, Fire 4000, Reconcile 1,
                   Clear] None (TimerThread_ctor :: nat TimerThread)
     = [Armed 0, Fired 1 0, Armed 2000, Armed 3000, Fired 2 2000, Fired 1 3000, Armed 6000]
   \<and> sorted [0, 2000, 3000 :: int]"
proof -
  let ?cs = "[AddTimer 0 0 3 0, Fire 0, AddTimer 1000 1 0 1, ClearTimer 7, Fire 5,
              Reconcile 1, Fire 2000, Reconcile 2, Fire 3000, Fire 4000, Reconcile 1,
              Clear] :: nat call list"
  have a: "engine_inv engine_10_20"
    by (simp add: engine_inv_def engine_10_20_def dangling_def timer_at_def)
  have b: "\<exists>st'. timerThreadWorker_fire 12000 engine_10_20 = Inr (Invoke 1 0, st')"
    by (simp add: engine_10_20_def eval_simps)
  have l: "threads_log ?cs None (TimerThread_ctor :: nat TimerThread)
      = [Armed 0, Fired 1 0, Armed 2000, Armed 3000, Fired 2 2000, Fired 1 3000, Armed 6000]"
    by (simp add: eval_simps)
  have c: "Suc (length (filter is_schedule ?cs)) < 2 ^ 64" by simp
  have d: "armed_in_order None (threads_log ?cs None (TimerThread_ctor :: nat TimerThread))"
    unfolding l by simp
  have "sorted (fired_targets (threads_log ?cs None (TimerThread_ctor :: nat TimerThread)))"
    using C6_worker_fires_in_deadline_order [OF a c d] by blast
  then have "sorted [0, 2000, 3000 :: int]" unfolding l by simp
  with a b l show ?thesis by blast
qed

text \<open>
  C7. The claim is that every operation keeps \<open>index_inv\<close>. \<^verbatim>\<open>destroy_impl\<close> does
  not: \<^verbatim>\<open>queue.erase(timer)\<close> erases by key, so it takes out of the queue every timer
  whose \<^verbatim>\<open>next\<close> equals that of the cancelled one. Two timers have the same deadline
  and \<open>index_inv\<close> holds; after \<^verbatim>\<open>clearTimer(1)\<close> timer 2 is still in the map, no
  handler is being executed, but the queue is empty, and \<open>index_inv\<close> does not hold.
\<close>

theorem C7_clearTimer_breaks_index_inv:
  "index_inv engine_same_deadline
   \<and> clearTimer 1 engine_same_deadline =
       Inr (\<lparr>returned = True, waited = False, notified = True, owns_lock = False\<rparr>,
            engine_same_deadline
              \<lparr>queue := [],
               active := [(2, \<lparr>id_t = 2, next_t = 5000, period = 0, handler = 1,
                              waitCond = False, running = False\<rparr>)]\<rparr>)
   \<and> \<not> index_inv
         (engine_same_deadline
            \<lparr>queue := [],
             active := [(2, \<lparr>id_t = 2, next_t = 5000, period = 0, handler = 1,
                            waitCond = False, running = False\<rparr>)]\<rparr>)"
  by (simp add: engine_same_deadline_def index_inv_def in_callback_def eval_simps)

text \<open>
  C8. The claim is that \<^verbatim>\<open>clear()\<close> notifies the worker at the very last removal and
  returns with an empty map. \<^verbatim>\<open>clear()\<close> takes \<^verbatim>\<open>queue.size() == 1\<close> for the sign of
  the last removal. With three timers of which two have the same deadline, the first
  removal erases both of these from the queue, the second removal finds one element in
  the queue, notifies and gives the lock up while a timer is left in the map, and the
  third call of \<^verbatim>\<open>destroy_impl\<close> fails its assertion \<^verbatim>\<open>lock.owns_lock()\<close>.
\<close>

theorem C8_clear_fails_assertion:
  "clear engine_three = Inl AssertionFailed"
  by (simp add: engine_three_def eval_simps)

text \<open>
  Around C8: the other orders of iteration over the same three timers either fail the
  assertion too or never notify; two timers with the same deadline are removed without
  any notification; with distinct deadlines the last removal notifies; and when
  \<^verbatim>\<open>clear()\<close> returns, the map is empty.
\<close>

lemma clear_same_deadline_never_notifies:
  "clear engine_same_deadline
     = Inr (True, [False, False], engine_same_deadline\<lparr>queue := [], active := []\<rparr>)"
  by (simp add: engine_same_deadline_def eval_simps)

lemma clear_10_20_notifies_last:
  "clear engine_10_20
     = Inr (True, [False, True], engine_10_20\<lparr>queue := [], active := []\<rparr>)"
  by (simp add: engine_10_20_def eval_simps)


lemma clear_loop_returned_empty:
  "clear_loop owns log st = Inr (True, log', st') \<Longrightarrow> active st' = []"
proof (induction owns log st rule: clear_loop.induct)
  case (1 owns log st)
  show ?case
  proof (cases "active st = []")
    case True
    with "1.prems" show ?thesis by (simp add: clear_loop.simps [of owns log st])
  next
    case False
    then obtain r st1 where
      des: "destroy_impl owns (map_begin (active st)) (length (queue st) = 1) st = Inr (r, st1)"
      using "1.prems"
      by (auto simp: clear_loop.simps [of owns log st] split: sum.splits)
    have w: "\<not> waited r"
      using "1.prems" False des by (auto simp: clear_loop.simps [of owns log st])
    have "clear_loop (owns_lock r) (log @ [notified r]) st1 = Inr (True, log', st')"
      using "1.prems" False des w by (simp add: clear_loop.simps [of owns log st])
    with "1.IH" [OF False des refl w] show ?thesis by simp
  qed
qed

lemma clear_returned_empty:
  "clear st = Inr (True, log, st') \<Longrightarrow> size_TimerThread st' = 0 \<and> empty_TimerThread st'"
  by (auto simp: clear_def size_TimerThread_def empty_TimerThread_def dest: clear_loop_returned_empty)

lemma clear_three_other_orders:
  fixes t1 t2 t3 :: "nat Timer"
  defines "t1 \<equiv> \<lparr>id_t = 1, next_t = 3000, period = 0, handler = 0, waitCond = False,
                   running = False\<rparr>"
    and "t2 \<equiv> \<lparr>id_t = 2, next_t = 6000, period = 0, handler = 1, waitCond = False,
                  running = False\<rparr>"
    and "t3 \<equiv> \<lparr>id_t = 3, next_t = 3000, period = 0, handler = 2, waitCond = False,
                  running = False\<rparr>"
  shows "clear (engine_three\<lparr>active := [(1, t1), (2, t2), (3, t3)]\<rparr>) = Inl AssertionFailed"
    and "clear (engine_three\<lparr>active := [(1, t1), (3, t3), (2, t2)]\<rparr>) = Inl AssertionFailed"
    and "clear (engine_three\<lparr>active := [(3, t3), (1, t1), (2, t2)]\<rparr>) = Inl AssertionFailed"
    and "clear (engine_three\<lparr>active := [(2, t2), (1, t1), (3, t3)]\<rparr>)
           = Inr (True, [False, False, False], engine_three\<lparr>queue := [], active := []\<rparr>)"
    and "clear (engine_three\<lparr>active := [(2, t2), (3, t3), (1, t1)]\<rparr>)
           = Inr (True, [False, False, False], engine_three\<lparr>queue := [], active := []\<rparr>)"
  by (simp_all add: t1_def t2_def t3_def engine_three_def eval_simps)

text \<open>
  Around C8: where \<^verbatim>\<open>clear()\<close> does what the claim says. On an engine in which every
  timer is in the queue, none is running and no two deadlines are equal,
  \<^verbatim>\<open>clear()\<close> returns, its last removal and no other notifies the worker, and the
  map and the queue are empty.
\<close>

lemma map_erase_hd:
  assumes "distinct (map fst ((k, t) # es))"
  shows "map_erase k ((k, t) # es) = es"
proof -
  have "\<forall>e \<in> set es. fst e \<noteq> k" using assms by auto
  then have "filter (\<lambda>e. fst e \<noteq> k) es = es" by (simp add: filter_id_conv)
  then show ?thesis by (simp add: map_erase_def)
qed

lemma queue_erase_key_distinct_deadlines:
  assumes "inj_on (\<lambda>j. next_t (timer_at m j)) (set q)" and "k \<in> set q"
  shows "queue_erase_key m k q = filter (\<lambda>j. j \<noteq> k) q"
  unfolding queue_erase_key_eq
proof (rule filter_cong [OF refl])
  fix j assume "j \<in> set q"
  with assms show "(next_t (timer_at m j) \<noteq> next_t (timer_at m k)) = (j \<noteq> k)"
    by (auto dest: inj_onD)
qed

lemma clear_loop_empty:
  "active st = [] \<Longrightarrow> clear_loop owns log st = Inr (True, log, st)"
  by (simp add: clear_loop.simps [of owns log st])

lemma clear_loop_distinct_deadlines:
  assumes "\<not> dangling (active st) (queue st)"
    and "set (queue st) = fst ` set (active st)"
    and "distinct (queue st)" and "distinct (map fst (active st))"
    and "inj_on (\<lambda>j. next_t (timer_at (active st) j)) (set (queue st))"
    and "\<forall>e \<in> set (active st). \<not> running (snd e)"
    and "active st \<noteq> []"
  shows "clear_loop True log st =
           Inr (True, log @ replicate (length (active st) - 1) False @ [True],
                st\<lparr>queue := [], active := []\<rparr>)"
  using assms
proof (induction "length (active st)" arbitrary: st log)
  case 0
  then show ?case by simp
next
  case (Suc n)
  obtain k t es where act: "active st = (k, t) # es"
    using Suc.prems(7) by (cases "active st") auto
  have kq: "k \<in> set (queue st)" using Suc.prems(2) act by simp
  have len: "length (queue st) = length (active st)"
  proof -
    have "length (queue st) = card (set (queue st))"
      using Suc.prems(3) by (simp add: distinct_card)
    also have "\<dots> = card (set (map fst (active st)))"
      using Suc.prems(2) by simp
    also have "\<dots> = length (map fst (active st))"
      using Suc.prems(4) by (rule distinct_card)
    finally show ?thesis by simp
  qed
  let ?q = "filter (\<lambda>j. j \<noteq> k) (queue st)"
  let ?st' = "st\<lparr>queue := ?q, active := es\<rparr>"
  have des: "destroy_impl True (map_begin (active st)) (length (queue st) = 1) st =
      Inr (\<lparr>returned = True, waited = False, notified = (es = []),
            owns_lock = (es \<noteq> [])\<rparr>, ?st')"
  proof -
    have "map_of (active st) k = Some t" using act by simp
    moreover have "\<not> running t" using Suc.prems(6) act by simp
    moreover have "queue_erase_key (active st) k (queue st) = ?q"
      using Suc.prems(5) kq by (rule queue_erase_key_distinct_deadlines)
    moreover have "map_erase k (active st) = es"
      using Suc.prems(4) unfolding act by (rule map_erase_hd)
    moreover have "(length (queue st) = 1) = (es = [])"
      using len act by simp
    ultimately show ?thesis
      using Suc.prems(1) act by (simp add: destroy_impl_def map_begin_def)
  qed
  have step: "clear_loop True log st = clear_loop (es \<noteq> []) (log @ [es = []]) ?st'"
    using des Suc.prems(7) by (simp add: clear_loop.simps [of True log st])
  show ?case
  proof (cases "es = []")
    case True
    have "set (queue st) = {k}" using Suc.prems(2) act True by simp
    then have "?q = []" by (auto simp: filter_empty_conv)
    then show ?thesis
      using step True act by (simp add: clear_loop_empty)
  next
    case False
    have knes: "k \<notin> fst ` set es" using Suc.prems(4) act by auto
    have same: "map_of es j = map_of (active st) j" if "j \<noteq> k" for j
      using that act by simp
    have qsub: "set ?q = set (queue st) - {k}" by auto
    have 1: "\<not> dangling (active ?st') (queue ?st')"
      using Suc.prems(1) same by (auto simp: dangling_iff)
    have 2: "set (queue ?st') = fst ` set (active ?st')"
      using Suc.prems(2) act knes qsub by auto
    have 3: "distinct (queue ?st')" using Suc.prems(3) by simp
    have 4: "distinct (map fst (active ?st'))" using Suc.prems(4) act by simp
    have 5: "inj_on (\<lambda>j. next_t (timer_at (active ?st') j)) (set (queue ?st'))"
    proof (rule inj_onI)
      fix i j
      assume i: "i \<in> set (queue ?st')" and j: "j \<in> set (queue ?st')"
        and eq: "next_t (timer_at (active ?st') i) = next_t (timer_at (active ?st') j)"
      from i j have "i \<noteq> k" "j \<noteq> k" "i \<in> set (queue st)" "j \<in> set (queue st)"
        by auto
      with eq same have "next_t (timer_at (active st) i) = next_t (timer_at (active st) j)"
        by (simp add: timer_at_def)
      with Suc.prems(5) \<open>i \<in> set (queue st)\<close> \<open>j \<in> set (queue st)\<close> show "i = j"
        by (auto dest: inj_onD)
    qed
    have 6: "\<forall>e \<in> set (active ?st'). \<not> running (snd e)"
      using Suc.prems(6) act by simp
    have 7: "active ?st' \<noteq> []" using False by simp
    have n: "n = length (active ?st')" using Suc.hyps(2) act by simp
    have "clear_loop True (log @ [False]) ?st' =
        Inr (True, (log @ [False]) @ replicate (length (active ?st') - 1) False @ [True],
             ?st'\<lparr>queue := [], active := []\<rparr>)"
      by (rule Suc.hyps(1) [OF n 1 2 3 4 5 6 7])
    moreover have "replicate (length es) False = False # replicate (length es - 1) False"
      using False by (cases es) simp_all
    ultimately show ?thesis
      using step False act by simp
  qed
qed

lemma clear_distinct_deadlines:
  assumes "\<not> dangling (active st) (queue st)"
    and "set (queue st) = fst ` set (active st)"
    and "distinct (queue st)" and "distinct (map fst (active st))"
    and "inj_on (\<lambda>j. next_t (timer_at (active st) j)) (set (queue st))"
    and "\<forall>e \<in> set (active st). \<not> running (snd e)"
    and "active st \<noteq> []"
  shows "clear st =
           Inr (True, replicate (length (active st) - 1) False @ [True],
                st\<lparr>queue := [], active := []\<rparr>)"
  using clear_loop_distinct_deadlines [OF assms, of "[]"] by (simp add: clear_def)

text \<open>
  C9. \<^verbatim>\<open>setInterval(handler, period)\<close> returns what
  \<^verbatim>\<open>addTimer(period, period, handler)\<close> returns and leaves the same engine, and
  \<^verbatim>\<open>setTimeout(handler, delay)\<close> does what \<^verbatim>\<open>addTimer(delay, 0, handler)\<close> does:
  same id, same wake-up of the worker, same engine, same fault if any. \<^verbatim>\<open>addTimer\<close> is
  the operation that the specification calls schedule. This holds for every handler and
  every duration, negative ones included, at every clock reading and engine.
\<close>

theorem C9_setInterval_setTimeout_addTimer:
  "setInterval now h p st = addTimer now p p h st
   \<and> setTimeout now h d st = addTimer now d 0 h st"
  by (simp add: setInterval_def setTimeout_def)




end
